theory Spec2Isabelle
  imports Complex_Main
begin

section \<open>The Ethereum wallpaper generator (main.py)\<close>

subsection \<open>Orientation names and the mirror map\<close>

text \<open>The four keys of the dictionaries \<open>magics\<close> and \<open>mirrors\<close>, in insertion order.\<close>

datatype orientation = TopLeft | TopRight | BottomLeft | BottomRight

definition orientations :: "orientation list" where
  "orientations = [TopLeft, TopRight, BottomLeft, BottomRight]"

text \<open>The dictionary \<open>mirrors\<close> (lines 20-25).\<close>

fun mirrors :: "orientation \<Rightarrow> orientation" where
  "mirrors TopLeft = BottomRight"
| "mirrors TopRight = BottomLeft"
| "mirrors BottomLeft = TopRight"
| "mirrors BottomRight = TopLeft"

subsection \<open>The brightness filter\<close>

text \<open>
  The float literal \<open>1.3\<close> is the double \<open>5854679515581645 / 2^52\<close>. Python's
  \<open>int\<close> on a float truncates towards zero; \<open>min(x * 1.3, 255)\<close> returns the
  integer 255 when the product exceeds it. The product is taken exactly here: rounding it
  to a double does not change its integer part for the channel values 0..255.
\<close>

definition float_1_3 :: rat where
  "float_1_3 = 5854679515581645 / 4503599627370496"

definition py_int :: "'a::floor_ceiling \<Rightarrow> int" where
  "py_int r = (if r < 0 then \<lceil>r\<rceil> else \<lfloor>r\<rfloor>)"

definition limit :: "int \<Rightarrow> int" where
  "limit x = py_int (min (of_int x * float_1_3) 255)"

type_synonym pixel = "int \<times> int \<times> int"

text \<open>\<open>filter\<close> of the source (lines 120-128), on an RGB triple.\<close>

fun filter_px :: "pixel \<Rightarrow> pixel" where
  "filter_px (r, g, b) = (limit r, limit g, limit b)"

text \<open>The filter as the specification words it: round, then clamp.\<close>

definition spec_limit :: "int \<Rightarrow> int" where
  "spec_limit v = min (round (of_int v * (13 / 10 :: rat))) 255"

subsection \<open>Errors\<close>

text \<open>The exceptions the modelled code can raise.\<close>

datatype py_error = ZeroDivisionError | IndexError | ValueError

subsection \<open>Relative polygon templates\<close>

text \<open>
  Coordinates are real numbers. \<open>scale_vertex\<close>, \<open>resized_magic\<close> and \<open>scale\<close>
  below compute in exact arithmetic, where the program rounds every intermediate result to
  a double; they are used for the geometry of the regions. The scaler with every operation
  rounded is \<open>scale_fl\<close> further down.
\<close>

type_synonym vertex = "real \<times> real"
type_synonym polygon = "vertex list"

text \<open>The dictionary \<open>magics\<close> as the module defines it (lines 12-17).\<close>

fun magics :: "orientation \<Rightarrow> polygon" where
  "magics TopLeft = [(0.500, 0.183), (0.393, 0.445), (0.500, 0.538), (0.500, 0.183)]"
| "magics TopRight = [(0.500, 0.183), (0.604, 0.445), (0.500, 0.538), (0.500, 0.183)]"
| "magics BottomLeft = [(0.392, 0.472), (0.500, 0.567), (0.500, 0.697), (0.392, 0.472)]"
| "magics BottomRight = [(0.605, 0.472), (0.500, 0.567), (0.500, 0.697), (0.605, 0.472)]"

subsection \<open>The geometry scaler\<close>

text \<open>The centre of the image in relative coordinates.\<close>

definition centre :: vertex where
  "centre = (0.5, 0.5)"

text \<open>
  One iteration of the loop of \<open>scale\<close> (lines 45-50). Python raises
  \<open>ZeroDivisionError\<close> on a float division by zero.
\<close>

fun scale_vertex :: "real \<Rightarrow> vertex \<Rightarrow> py_error + vertex" where
  "scale_vertex s (x, y) =
     (let dist = sqrt ((y - 0.5)\<^sup>2 + (x - 0.5)\<^sup>2) in
      if dist = 0 then Inl ZeroDivisionError
      else
        let sin = (y - 0.5) / dist;
            cos = (x - 0.5) / dist;
            dist = dist * s
        in Inr (dist * cos + 0.5, dist * sin + 0.5))"

text \<open>The loop building \<open>resized_magic\<close>; it stops at the first exception.\<close>

fun resized_magic :: "real \<Rightarrow> polygon \<Rightarrow> py_error + polygon" where
  "resized_magic s [] = Inr []"
| "resized_magic s (v # vs) =
     (case scale_vertex s v of
        Inl e \<Rightarrow> Inl e
      | Inr v' \<Rightarrow>
          (case resized_magic s vs of
             Inl e \<Rightarrow> Inl e
           | Inr vs' \<Rightarrow> Inr (v' # vs')))"

definition scale :: "polygon \<Rightarrow> real \<Rightarrow> real \<Rightarrow> real \<Rightarrow> py_error + polygon" where
  "scale magic s width height =
     (case resized_magic s magic of
        Inl e \<Rightarrow> Inl e
      | Inr rm \<Rightarrow> Inr (map (\<lambda>(x, y). (x * width, y * height)) rm))"

subsection \<open>The geometry scaler in double precision\<close>

text \<open>
  The program computes \<open>scale\<close> in IEEE 754 binary64. \<open>fl\<close> rounds a real number to
  the nearest double, ties to even, for values in the normal range (the coordinates at
  hand are far from overflow and underflow). Every operation of lines 46-52 returns the
  rounded exact result; Python's \<open>x ** 2\<close> and \<open>x ** 0.5\<close> are taken as the correctly
  rounded square and square root. A float literal denotes its nearest double.
\<close>

definition round_even :: "real \<Rightarrow> int" where
  "round_even r =
     (let f = \<lfloor>r\<rfloor>; d = r - of_int f in
      if d < 1 / 2 then f else if 1 / 2 < d then f + 1 else if even f then f else f + 1)"

definition fl :: "real \<Rightarrow> real" where
  "fl x =
     (if x = 0 then 0
      else
        (let e = \<lfloor>log 2 \<bar>x\<bar>\<rfloor> - 52
         in of_int (round_even (x / 2 powr of_int e)) * 2 powr of_int e))"





text \<open>
  In exact arithmetic \<open>scale\<close> moves a vertex along the ray from the centre through
  it, then stretches by width and height.
\<close>

definition radial :: "real \<Rightarrow> vertex \<Rightarrow> vertex" where
  "radial s v = (s * (fst v - 0.5) + 0.5, s * (snd v - 0.5) + 0.5)"

definition scaled :: "real \<Rightarrow> real \<Rightarrow> real \<Rightarrow> polygon \<Rightarrow> polygon" where
  "scaled s w h magic = map (\<lambda>(x, y). (x * w, y * h)) (map (radial s) magic)"

subsection \<open>Loops that may raise\<close>

text \<open>A \<open>for\<close> loop over a list whose body may raise: the first exception ends the loop.\<close>

fun for_each :: "('a \<Rightarrow> 's \<Rightarrow> py_error + 's) \<Rightarrow> 'a list \<Rightarrow> 's \<Rightarrow> py_error + 's" where
  "for_each body [] st = Inr st"
| "for_each body (x # xs) st =
     (case body x st of
        Inl e \<Rightarrow> Inl e
      | Inr st' \<Rightarrow> for_each body xs st')"

subsection \<open>The first loop of main: scaling the table in place\<close>

text \<open>
  Lines 143-144: every entry of the global dictionary \<open>magics\<close> is overwritten with its
  scaled polygon. The table is passed in and returned updated.
\<close>

type_synonym table = "orientation \<Rightarrow> polygon"

definition scale_entry :: "real \<Rightarrow> real \<Rightarrow> real \<Rightarrow> orientation \<Rightarrow> table \<Rightarrow> py_error + table" where
  "scale_entry eth_scale width height k tbl =
     (case scale (tbl k) eth_scale width height of
        Inl e \<Rightarrow> Inl e
      | Inr p \<Rightarrow> Inr (tbl(k := p)))"

definition scale_magics :: "table \<Rightarrow> real \<Rightarrow> real \<Rightarrow> real \<Rightarrow> py_error + table" where
  "scale_magics tbl eth_scale width height =
     for_each (scale_entry eth_scale width height) orientations tbl"

subsection \<open>Cropping in load_image\<close>

text \<open>
  Lines 63-71: the 4-tuple handed to \<open>im.crop\<close>, which reads it as
  (left, upper, right, lower). The division \<open>width / height\<close> raises on height 0.
\<close>

definition crop_box :: "int \<Rightarrow> int \<Rightarrow> py_error + (real \<times> real \<times> real \<times> real)" where
  "crop_box width height =
     (let m = 1920 / 1266 :: real in
      if height = 0 then Inl ZeroDivisionError
      else if of_int width / of_int height > m then
        (let diff = of_int width - (m * of_int height)
         in Inr (diff / 2, 0, m * of_int height, of_int height))
      else
        (let diff = of_int height - of_int width / m
         in Inr (0, diff / 2, of_int width, of_int width / m)))"

subsection \<open>The command line\<close>

text \<open>
  Lines 173-186. The file system is the predicate \<open>isfile\<close>, the conversion
  \<open>float\<close> is \<open>parse_float\<close> (it raises \<open>ValueError\<close> on a string that is no
  number). The outcome is either an exit with the lines printed so far and the exit
  code, or the call of \<open>main\<close> with its arguments, or an exception.
\<close>

datatype outcome =
  Exit "string list" int
| CallMain string string real
| Raise py_error

definition cli :: "(string \<Rightarrow> bool) \<Rightarrow> (string \<Rightarrow> real option) \<Rightarrow> string list \<Rightarrow> outcome" where
  "cli isfile parse_float argv =
     (if length argv < 3 then
        Exit [''error: missing arguments'',
              ''usage: ./main.py INPUT_IMAGE OUTPUT_IMAGE [ETH_SCALE]''] 0
      else if \<not> isfile (argv ! 1) then
        Exit [''error: cannot open input file''] 0
      else if length argv = 3 then
        CallMain (argv ! 1) (argv ! 2) 1
      else
        (case parse_float (argv ! 3) of
           None \<Rightarrow> Raise ValueError
         | Some s \<Rightarrow> CallMain (argv ! 1) (argv ! 2) s))"

subsection \<open>The image buffer\<close>

text \<open>
  Modelled from the spec: the image buffer of PIL, which is not part of the repository.
  It is a width by height grid of RGB pixels; reading or writing a pixel outside the grid
  raises \<open>IndexError\<close>.
\<close>

type_synonym point = "int \<times> int"

record image =
  width :: int
  height :: int
  data :: "point \<Rightarrow> pixel"

definition in_bounds :: "image \<Rightarrow> point \<Rightarrow> bool" where
  "in_bounds im p = (0 \<le> fst p \<and> fst p < width im \<and> 0 \<le> snd p \<and> snd p < height im)"

definition getpixel :: "image \<Rightarrow> point \<Rightarrow> py_error + pixel" where
  "getpixel im p = (if in_bounds im p then Inr (data im p) else Inl IndexError)"

definition putpixel :: "image \<Rightarrow> point \<Rightarrow> pixel \<Rightarrow> py_error + image" where
  "putpixel im p v =
     (if in_bounds im p then Inr (im\<lparr>data := (data im)(p := v)\<rparr>) else Inl IndexError)"

subsection \<open>Polygons: bounds and containment\<close>

text \<open>
  Modelled from the spec: \<open>Polygon.bounds\<close> and \<open>Polygon.contains\<close> of Shapely, which
  is not part of the repository. The bounds are the least and greatest coordinates of the
  vertices; a point is contained when it is strictly inside the polygon: not on an edge,
  and a ray to the right crosses the boundary an odd number of times. Every polygon of
  \<open>magics\<close> has four vertices and \<open>scale\<close> keeps their number, so \<open>hd\<close> is
  only taken of a list that is not empty.
\<close>

definition bounds :: "polygon \<Rightarrow> real \<times> real \<times> real \<times> real" where
  "bounds magic =
     (fold min (map fst magic) (fst (hd magic)), fold min (map snd magic) (snd (hd magic)),
      fold max (map fst magic) (fst (hd magic)), fold max (map snd magic) (snd (hd magic)))"

text \<open>The edges of the ring, the last vertex joined to the first.\<close>

definition edges :: "polygon \<Rightarrow> (vertex \<times> vertex) list" where
  "edges magic = map (\<lambda>i. (magic ! i, magic ! ((i + 1) mod length magic))) [0..<length magic]"

definition on_segment :: "vertex \<Rightarrow> vertex \<times> vertex \<Rightarrow> bool" where
  "on_segment p e =
     (case (p, e) of ((px, py), ((ax, ay), (bx, by))) \<Rightarrow>
        (bx - ax) * (py - ay) = (by - ay) * (px - ax) \<and>
        min ax bx \<le> px \<and> px \<le> max ax bx \<and> min ay by \<le> py \<and> py \<le> max ay by)"

definition crosses :: "vertex \<Rightarrow> vertex \<times> vertex \<Rightarrow> bool" where
  "crosses p e =
     (case (p, e) of ((px, py), ((ax, ay), (bx, by))) \<Rightarrow>
        (py < ay) \<noteq> (py < by) \<and> px < (bx - ax) * (py - ay) / (by - ay) + ax)"

definition contains :: "polygon \<Rightarrow> point \<Rightarrow> bool" where
  "contains magic p =
     (let v = (of_int (fst p), of_int (snd p)) in
      \<not> list_ex (on_segment v) (edges magic) \<and>
      odd (length (filter (crosses v) (edges magic))))"

subsection \<open>The pixel remapper\<close>

text \<open>Python's \<open>range(a, b)\<close> on integers.\<close>

definition range_py :: "int \<Rightarrow> int \<Rightarrow> int list" where
  "range_py a b = [a..b - 1]"

text \<open>The pixels the two nested loops of lines 153-154 visit, in order.\<close>

definition box_points :: "polygon \<Rightarrow> point list" where
  "box_points magic =
     (case bounds magic of (min_x, min_y, max_x, max_y) \<Rightarrow>
        concat (map (\<lambda>x. map (\<lambda>y. (x, y)) (range_py \<lfloor>min_y\<rfloor> \<lceil>max_y\<rceil>))
                    (range_py \<lfloor>min_x\<rfloor> \<lceil>max_x\<rceil>)))"

text \<open>\<open>other[0]\<close> and \<open>magic[0]\<close>: indexing an empty list raises.\<close>

definition first_vertex :: "polygon \<Rightarrow> py_error + vertex" where
  "first_vertex magic = (case magic of [] \<Rightarrow> Inl IndexError | v # _ \<Rightarrow> Inr v)"

text \<open>Lines 156-158: the translation to the mirror partner, truncated to integers.\<close>

definition translation :: "table \<Rightarrow> orientation \<Rightarrow> py_error + point" where
  "translation tbl k =
     (case first_vertex (tbl (mirrors k)) of
        Inl e \<Rightarrow> Inl e
      | Inr o0 \<Rightarrow>
          (case first_vertex (tbl k) of
             Inl e \<Rightarrow> Inl e
           | Inr m0 \<Rightarrow> Inr (py_int (fst o0 - fst m0), py_int (snd o0 - snd m0))))"

text \<open>Lines 155-160: the body of the inner loop, on the image mutated in place.\<close>

definition remap_pixel :: "table \<Rightarrow> orientation \<Rightarrow> point \<Rightarrow> image \<Rightarrow> py_error + image" where
  "remap_pixel tbl k p pixels =
     (if contains (tbl k) p then
        (case translation tbl k of
           Inl e \<Rightarrow> Inl e
         | Inr t \<Rightarrow>
             (case getpixel pixels (fst p + fst t, snd p + snd t) of
                Inl e \<Rightarrow> Inl e
              | Inr v \<Rightarrow> putpixel pixels p (filter_px v)))
      else Inr pixels)"

definition remap_region :: "table \<Rightarrow> orientation \<Rightarrow> image \<Rightarrow> py_error + image" where
  "remap_region tbl k pixels = for_each (remap_pixel tbl k) (box_points (tbl k)) pixels"

subsection \<open>The outline\<close>

text \<open>
  \<open>draw_outline\<close> (lines 77-93) draws the edges of the polygon with the opaque colour
  (180, 180, 180). Which pixels a line covers is decided by PIL's rasteriser, the
  parameter \<open>line\<close>; pixels outside the image are clipped.
\<close>

type_synonym rasteriser = "vertex \<times> vertex \<Rightarrow> point list"

definition paint :: "point list \<Rightarrow> image \<Rightarrow> image" where
  "paint ps im =
     im\<lparr>data := (\<lambda>q. if q \<in> set ps \<and> in_bounds im q then (180, 180, 180) else data im q)\<rparr>"

definition draw_outline :: "rasteriser \<Rightarrow> image \<Rightarrow> polygon \<Rightarrow> image" where
  "draw_outline line im magic = fold (\<lambda>e. paint (line e)) (edges magic) im"

subsection \<open>The main loop\<close>

text \<open>One iteration of the loop of line 148: remap the region, then draw its outline.\<close>

definition process_region :: "rasteriser \<Rightarrow> table \<Rightarrow> orientation \<Rightarrow> image \<Rightarrow> py_error + image" where
  "process_region line tbl k im =
     (case remap_region tbl k im of
        Inl e \<Rightarrow> Inl e
      | Inr im' \<Rightarrow> Inr (draw_outline line im' (tbl k)))"

definition remap_all :: "rasteriser \<Rightarrow> table \<Rightarrow> image \<Rightarrow> py_error + image" where
  "remap_all line tbl im = for_each (process_region line tbl) orientations im"

text \<open>
  \<open>main\<close> from line 141 to line 169, on the image \<open>load_image\<close> returned: the table
  is scaled to the size of the image, then the regions are processed. The progress
  messages of lines 162-167 go to the console only and are left out, as are the watermark
  and the encoding of the output file, which PIL computes after the loop.
\<close>

definition main_remap :: "rasteriser \<Rightarrow> real \<Rightarrow> image \<Rightarrow> py_error + image" where
  "main_remap line eth_scale im =
     (case scale_magics magics eth_scale (of_int (width im)) (of_int (height im)) of
        Inl e \<Rightarrow> Inl e
      | Inr tbl \<Rightarrow> remap_all line tbl im)"

subsection \<open>The snapshot design of the specification\<close>

text \<open>
  The remapper as the specification recommends it: every mirrored source pixel is read
  from an immutable snapshot of the original grid, and written to a separate output grid.
\<close>

definition snapshot_pixel :: "image \<Rightarrow> table \<Rightarrow> orientation \<Rightarrow> point \<Rightarrow> image \<Rightarrow> py_error + image" where
  "snapshot_pixel snap tbl k p out =
     (if contains (tbl k) p then
        (case translation tbl k of
           Inl e \<Rightarrow> Inl e
         | Inr t \<Rightarrow>
             (case getpixel snap (fst p + fst t, snd p + snd t) of
                Inl e \<Rightarrow> Inl e
              | Inr v \<Rightarrow> putpixel out p (filter_px v)))
      else Inr out)"

definition snapshot_region :: "image \<Rightarrow> table \<Rightarrow> orientation \<Rightarrow> image \<Rightarrow> py_error + image" where
  "snapshot_region snap tbl k out = for_each (snapshot_pixel snap tbl k) (box_points (tbl k)) out"

definition snapshot_process_region ::
  "rasteriser \<Rightarrow> image \<Rightarrow> table \<Rightarrow> orientation \<Rightarrow> image \<Rightarrow> py_error + image" where
  "snapshot_process_region line snap tbl k out =
     (case snapshot_region snap tbl k out of
        Inl e \<Rightarrow> Inl e
      | Inr out' \<Rightarrow> Inr (draw_outline line out' (tbl k)))"

definition snapshot_all :: "rasteriser \<Rightarrow> table \<Rightarrow> image \<Rightarrow> py_error + image" where
  "snapshot_all line tbl im = for_each (snapshot_process_region line im tbl) orientations im"

subsection \<open>Reads of pixels written earlier in the run\<close>

text \<open>The pixels region \<open>k\<close> writes, and the pixels its outline may cover.\<close>

definition written_by :: "table \<Rightarrow> orientation \<Rightarrow> point set" where
  "written_by tbl k = set (filter (contains (tbl k)) (box_points (tbl k)))"

definition outline_points :: "rasteriser \<Rightarrow> polygon \<Rightarrow> point set" where
  "outline_points line magic = set (concat (map line (edges magic)))"

text \<open>The table \<open>main\<close> works with, in exact arithmetic.\<close>

definition templates_at :: "real \<Rightarrow> real \<Rightarrow> real \<Rightarrow> table" where
  "templates_at s w h k = scaled s w h (magics k)"

text \<open>The regions processed before and after region \<open>k\<close>.\<close>

definition earlier :: "orientation \<Rightarrow> orientation list" where
  "earlier k = takeWhile (\<lambda>j. j \<noteq> k) orientations"

definition later :: "orientation \<Rightarrow> orientation list" where
  "later k = tl (dropWhile (\<lambda>j. j \<noteq> k) orientations)"

text \<open>
  The pixel \<open>s\<close> has not been written when region \<open>k\<close> reads it; the pixel \<open>p\<close>
  written by region \<open>k\<close> is not written again.
\<close>

definition unwritten_before :: "rasteriser \<Rightarrow> table \<Rightarrow> orientation \<Rightarrow> point \<Rightarrow> bool" where
  "unwritten_before line tbl k s =
     (s \<notin> written_by tbl k \<and>
      list_all (\<lambda>j. s \<notin> written_by tbl j \<and> s \<notin> outline_points line (tbl j)) (earlier k))"

definition kept_after :: "rasteriser \<Rightarrow> table \<Rightarrow> orientation \<Rightarrow> point \<Rightarrow> bool" where
  "kept_after line tbl k p =
     (p \<notin> outline_points line (tbl k) \<and>
      list_all (\<lambda>j. p \<notin> written_by tbl j \<and> p \<notin> outline_points line (tbl j)) (later k))"

subsection \<open>Test inputs\<close>

text \<open>An image of one colour, and a rasteriser for outlines that cover no pixel.\<close>

definition solid :: "int \<Rightarrow> int \<Rightarrow> pixel \<Rightarrow> image" where
  "solid w h v = \<lparr>width = w, height = h, data = (\<lambda>p. v)\<rparr>"

definition no_line :: rasteriser where
  "no_line e = []"

subsection \<open>Stale reads\<close>

text \<open>
  A read is stale when the mirrored source pixel has been written earlier in the same run,
  by a region or by an outline. \<open>stale_in_region tbl k W ps\<close> collects the pixels of
  \<open>ps\<close> that region \<open>k\<close> writes from a stale read, when \<open>W\<close> is the set of
  pixels written before; \<open>stale_pixels\<close> does so for the whole run.
\<close>

text \<open>Two images of the same size that agree on every pixel outside the set \<open>W\<close>.\<close>

definition agree :: "point set \<Rightarrow> image \<Rightarrow> image \<Rightarrow> bool" where
  "agree W im snap \<longleftrightarrow>
     width im = width snap \<and> height im = height snap \<and> (\<forall>q. q \<notin> W \<longrightarrow> data im q = data snap q)"

fun stale_in_region :: "table \<Rightarrow> orientation \<Rightarrow> point set \<Rightarrow> point list \<Rightarrow> point set" where
  "stale_in_region tbl k W [] = {}"
| "stale_in_region tbl k W (p # ps) =
     (if contains (tbl k) p then
        (case translation tbl k of
           Inl e \<Rightarrow> {}
         | Inr t \<Rightarrow>
             (if (fst p + fst t, snd p + snd t) \<in> W then {p} else {}) \<union>
             stale_in_region tbl k (insert p W) ps)
      else stale_in_region tbl k W ps)"

fun stale_pixels :: "rasteriser \<Rightarrow> table \<Rightarrow> point set \<Rightarrow> orientation list \<Rightarrow> point set" where
  "stale_pixels line tbl W [] = {}"
| "stale_pixels line tbl W (k # ks) =
     stale_in_region tbl k W (box_points (tbl k)) \<union>
     stale_pixels line tbl (W \<union> written_by tbl k \<union> outline_points line (tbl k)) ks"

text \<open>
  Two runs end alike outside \<open>S\<close>: both raise the same exception, or both return
  images of the same size that agree on every pixel outside \<open>S\<close>.
\<close>

definition same_outside :: "point set \<Rightarrow> py_error + image \<Rightarrow> py_error + image \<Rightarrow> bool" where
  "same_outside S r1 r2 =
     (case r1 of
        Inl e1 \<Rightarrow> (case r2 of Inl e2 \<Rightarrow> e1 = e2 | Inr b \<Rightarrow> False)
      | Inr a \<Rightarrow> (case r2 of Inl e2 \<Rightarrow> False | Inr b \<Rightarrow> agree S a b))"

section \<open>Properties\<close>

subsection \<open>The mirror map\<close>

text \<open>
  C6: the mirror map is an involution without fixed point; it pairs top-left with
  bottom-right and top-right with bottom-left.
\<close>

theorem mirrors_involution_no_fixpoint:
  "mirrors (mirrors R) = R \<and> mirrors R \<noteq> R \<and>
   mirrors TopLeft = BottomRight \<and> mirrors BottomRight = TopLeft \<and>
   mirrors TopRight = BottomLeft \<and> mirrors BottomLeft = TopRight"
  by (cases R) simp_all

subsection \<open>The brightness filter\<close>

lemma limit_floor:
  assumes "0 \<le> x" and "x \<le> 255"
  shows "limit x = min ((13 * x) div 10) 255"
proof -
  define q where "q = (13 * x) div 10"
  define r where "r = (13 * x) mod 10"
  have qr: "13 * x = 10 * q + r" and r0: "0 \<le> r" and r9: "r \<le> 9"
    by (simp_all add: q_def r_def) 
  have q0: "0 \<le> q" using assms by (simp add: q_def)
  let ?p = "of_int x * float_1_3 :: rat"
  have p_eq: "?p = of_int (x * 5854679515581645) / of_int 4503599627370496"
    by (simp add: float_1_3_def)
  have fl: "\<lfloor>?p\<rfloor> = q"
  proof -
    have "\<lfloor>?p\<rfloor> = (x * 5854679515581645) div 4503599627370496"
      unfolding p_eq by (rule floor_divide_of_int_eq)
    also have "\<dots> = q"
    proof (rule int_div_pos_eq [where r = "x * 5854679515581645 - q * 4503599627370496"])
      show "x * 5854679515581645 =
        4503599627370496 * q + (x * 5854679515581645 - q * 4503599627370496)"
        by simp
      show "0 \<le> x * 5854679515581645 - q * 4503599627370496"
        using qr r0 assms by linarith
      show "x * 5854679515581645 - q * 4503599627370496 < 4503599627370496"
        using qr r9 assms by linarith
    qed
    finally show ?thesis .
  qed
  have p0: "0 \<le> ?p" using assms by (simp add: float_1_3_def)
  show ?thesis
  proof (cases "?p \<le> 255")
    case True
    then have "q \<le> 255" using fl floor_mono [of ?p 255] by simp
    with True p0 fl show ?thesis
      by (simp add: limit_def py_int_def min_def q_def)
  next
    case False
    then have "255 \<le> q" using fl floor_mono [of 255 ?p] by simp
    with False show ?thesis
      by (simp add: limit_def py_int_def min_def q_def)
  qed
qed

lemma limit_mono:
  assumes "0 \<le> u" and "u \<le> v" and "v \<le> 255"
  shows "limit u \<le> limit v"
proof -
  have "(13 * u) div 10 \<le> (13 * v) div 10"
    using assms by (intro zdiv_mono1) simp_all
  then show ?thesis
    using assms by (simp add: limit_floor min_def)
qed

text \<open>
  C3, as stated, fails: the code truncates where the claim rounds, so channel value 2
  gives 2 (not 3) and channel value 196 gives 254 (not 255).
\<close>

theorem limit_not_round_counterexample:
  "limit 2 \<noteq> spec_limit 2 \<and> limit 196 \<noteq> 255"
proof -
  have "round (of_int 2 * (13 / 10 :: rat)) = 3"
    by (simp add: round_def floor_eq_iff)
  then have "spec_limit 2 = 3"
    by (simp add: spec_limit_def)
  moreover have "limit 2 = 2" and "limit 196 = 254"
    by (simp_all add: limit_floor)
  ultimately show ?thesis by simp
qed

text \<open>
  C3, amended: on channel values 0..255 the filter returns, per channel and
  independently, the minimum of 255 and the integer part of v * 1.3; it gives 255 for
  every channel value from 197 on (and 254 at 196), 0 for 0, and it is monotonically
  non-decreasing.
\<close>

theorem filter_truncates:
  assumes "0 \<le> r" "r \<le> 255" "0 \<le> g" "g \<le> 255" "0 \<le> b" "b \<le> 255"
  shows "filter_px (r, g, b) =
           (min ((13 * r) div 10) 255, min ((13 * g) div 10) 255, min ((13 * b) div 10) 255)
         \<and> (197 \<le> r \<longrightarrow> limit r = 255) \<and> limit 196 = 254 \<and> limit 0 = 0
         \<and> (r \<le> g \<longrightarrow> limit r \<le> limit g)"
proof -
  have 1: "filter_px (r, g, b) =
           (min ((13 * r) div 10) 255, min ((13 * g) div 10) 255, min ((13 * b) div 10) 255)"
    using assms by (simp add: limit_floor)
  have 2: "limit r = 255" if "197 \<le> r"
    using that assms by (simp add: limit_floor min_def)
  have 3: "limit 196 = 254" by (simp add: limit_floor)
  have 4: "limit 0 = 0" by (simp add: limit_floor)
  have 5: "limit r \<le> limit g" if "r \<le> g"
    using that assms by (intro limit_mono)
  from 1 2 3 4 5 show ?thesis by blast
qed

theorem filter_truncates_witness:
  "filter_px (128, 200, 7) = (166, 255, 9) \<and> limit 200 = 255 \<and> limit 128 \<le> limit 200"
proof -
  have a: "filter_px (128, 200, 7) =
      (min ((13 * 128) div 10) 255, min ((13 * 200) div 10) 255, min ((13 * 7) div 10) 255)"
    using filter_truncates [of 128 200 7] by linarith
  have b: "limit 200 = 255"
    using filter_truncates [of 200 0 0] by linarith
  have c: "limit 128 \<le> limit 200"
    using filter_truncates [of 128 200 0] by linarith
  have "filter_px (128, 200, 7) = (166, 255, 9)"
    unfolding a by simp
  with b c show ?thesis by blast
qed

subsection \<open>The geometry scaler\<close>

lemma dist_zero_iff: "sqrt ((y - 0.5)\<^sup>2 + (x - 0.5)\<^sup>2) = 0 \<longleftrightarrow> (x, y) = (0.5, 0.5 :: real)"
  by (auto simp: sum_power2_eq_zero_iff)

lemma scale_vertex_error_iff:
  "scale_vertex s v = Inl e \<longleftrightarrow> e = ZeroDivisionError \<and> v = centre"
proof (cases v)
  case (Pair x y)
  define d where "d = sqrt ((y - 0.5)\<^sup>2 + (x - 0.5)\<^sup>2)"
  have "d = 0 \<longleftrightarrow> (x, y) = centre"
    unfolding d_def centre_def by (rule dist_zero_iff)
  moreover have "scale_vertex s (x, y) =
      (if d = 0 then Inl ZeroDivisionError
       else Inr (d * s * ((x - 0.5) / d) + 0.5, d * s * ((y - 0.5) / d) + 0.5))"
    by (simp add: d_def Let_def)
  ultimately show ?thesis
    unfolding Pair by auto
qed

lemma scale_vertex_radial:
  assumes "v \<noteq> centre"
  shows "scale_vertex s v = Inr (radial s v)"
proof (cases v)
  case (Pair x y)
  define d where "d = sqrt ((y - 0.5)\<^sup>2 + (x - 0.5)\<^sup>2)"
  have d: "d \<noteq> 0"
    using assms unfolding Pair d_def dist_zero_iff centre_def by simp
  have "scale_vertex s (x, y) =
      Inr (d * s * ((x - 0.5) / d) + 0.5, d * s * ((y - 0.5) / d) + 0.5)"
    using d by (simp add: d_def Let_def)
  also have "\<dots> = Inr (radial s (x, y))"
    using d by (simp add: radial_def)
  finally show ?thesis
    by (simp add: Pair)
qed

lemma radial_one: "radial 1 v = v"
  by (simp add: radial_def)

lemma scale_vertex_one:
  assumes "v \<noteq> centre"
  shows "scale_vertex 1 v = Inr v"
  using scale_vertex_radial [OF assms, of 1] by (simp add: radial_one)

lemma resized_magic_error_iff:
  "resized_magic s magic = Inl e \<longleftrightarrow> e = ZeroDivisionError \<and> centre \<in> set magic"
proof (induction magic)
  case Nil
  show ?case by simp
next
  case (Cons v vs)
  show ?case
  proof (cases "scale_vertex s v")
    case (Inl e')
    then show ?thesis
      using scale_vertex_error_iff [of s v e'] by auto
  next
    case (Inr v')
    then have "v \<noteq> centre"
      using scale_vertex_error_iff [of s v ZeroDivisionError] by auto
    with Inr Cons.IH show ?thesis
      by (auto split: sum.splits)
  qed
qed

lemma resized_magic_radial:
  assumes "centre \<notin> set magic"
  shows "resized_magic s magic = Inr (map (radial s) magic)"
  using assms
proof (induction magic)
  case Nil
  show ?case by simp
next
  case (Cons v vs)
  from Cons.prems have "v \<noteq> centre" and "centre \<notin> set vs"
    by auto
  then have "scale_vertex s v = Inr (radial s v)"
    and "resized_magic s vs = Inr (map (radial s) vs)"
    using scale_vertex_radial Cons.IH by blast+
  then show ?case
    by (simp del: scale_vertex.simps)
qed

lemma scale_scaled:
  assumes "centre \<notin> set magic"
  shows "scale magic s w h = Inr (scaled s w h magic)"
  using assms by (simp add: scale_def resized_magic_radial scaled_def)

lemma scaled_one: "scaled 1 w h magic = map (\<lambda>(x, y). (x * w, y * h)) magic"
  by (simp add: scaled_def radial_one [abs_def])


lemma scale_error_iff:
  "scale magic s w h = Inl e \<longleftrightarrow> e = ZeroDivisionError \<and> centre \<in> set magic"
  using resized_magic_error_iff [of s magic e]
  by (auto simp: scale_def split: sum.splits)

lemma magics_no_centre: "centre \<notin> set (magics R)"
  by (cases R) (simp_all add: centre_def)

text \<open>
  C8: \<open>scale\<close> divides by the distance from the centre without a guard, so it fails
  (with a division by zero) exactly when some vertex is (0.5, 0.5); no vertex of the four
  templates is, so scaling a template succeeds for every scale factor, width and height.
\<close>

theorem scale_undefined_only_at_centre:
  "(scale magic s w h = Inl ZeroDivisionError) = (centre \<in> set magic) \<and>
   (\<exists>e. scale magic s w h = Inl e) = (centre \<in> set magic) \<and>
   (\<exists>p. scale (magics R) s w h = Inr p)"
proof -
  have "\<exists>p. scale (magics R) s w h = Inr p"
  proof (cases "scale (magics R) s w h")
    case (Inl e)
    then show ?thesis
      using scale_error_iff [of "magics R" s w h e] magics_no_centre [of R] by simp
  next
    case (Inr p)
    then show ?thesis by blast
  qed
  then show ?thesis
    using scale_error_iff [of magic s w h] by blast
qed

subsection \<open>The geometry scaler in double precision\<close>













































subsection \<open>The template table after main\<close>

lemma for_each_append:
  "for_each body (xs @ ys) st =
     (case for_each body xs st of Inl e \<Rightarrow> Inl e | Inr st' \<Rightarrow> for_each body ys st')"
  by (induction xs arbitrary: st) (auto split: sum.splits)

lemma scale_entry_scaled:
  assumes "centre \<notin> set (tbl k)"
  shows "scale_entry s w h k tbl = Inr (tbl(k := scaled s w h (tbl k)))"
  unfolding scale_entry_def scale_scaled [OF assms] by simp

lemma scale_magics_scaled:
  assumes nc: "\<And>k. centre \<notin> set (tbl k)"
  shows "scale_magics tbl s w h = Inr (\<lambda>k. scaled s w h (tbl k))"
proof -
  let ?f = "\<lambda>k. scaled s w h (tbl k)"
  define t1 where "t1 = tbl(TopLeft := ?f TopLeft)"
  define t2 where "t2 = t1(TopRight := ?f TopRight)"
  define t3 where "t3 = t2(BottomLeft := ?f BottomLeft)"
  define t4 where "t4 = t3(BottomRight := ?f BottomRight)"
  have 1: "scale_entry s w h TopLeft tbl = Inr t1"
    unfolding t1_def by (rule scale_entry_scaled) (rule nc)
  have "scale_entry s w h TopRight t1 = Inr (t1(TopRight := scaled s w h (t1 TopRight)))"
    by (rule scale_entry_scaled) (simp add: t1_def nc)
  then have 2: "scale_entry s w h TopRight t1 = Inr t2"
    by (simp add: t2_def t1_def)
  have "scale_entry s w h BottomLeft t2 = Inr (t2(BottomLeft := scaled s w h (t2 BottomLeft)))"
    by (rule scale_entry_scaled) (simp add: t2_def t1_def nc)
  then have 3: "scale_entry s w h BottomLeft t2 = Inr t3"
    by (simp add: t3_def t2_def t1_def)
  have "scale_entry s w h BottomRight t3 = Inr (t3(BottomRight := scaled s w h (t3 BottomRight)))"
    by (rule scale_entry_scaled) (simp add: t3_def t2_def t1_def nc)
  then have 4: "scale_entry s w h BottomRight t3 = Inr t4"
    by (simp add: t4_def t3_def t2_def t1_def)
  have "scale_magics tbl s w h = Inr t4"
    by (simp add: scale_magics_def orientations_def 1 2 3 4)
  also have "t4 = ?f"
  proof
    fix k show "t4 k = ?f k"
      by (cases k) (simp_all add: t4_def t3_def t2_def t1_def)
  qed
  finally show ?thesis .
qed

lemma scale_magics_templates: "scale_magics magics s w h = Inr (\<lambda>k. scaled s w h (magics k))"
  by (rule scale_magics_scaled) (rule magics_no_centre)

lemma scale_magics_templates_one:
  "scale_magics magics 1 w h = Inr (\<lambda>k. map (\<lambda>(x, y). (x * w, y * h)) (magics k))"
  by (simp add: scale_magics_templates scaled_one)



subsection \<open>Cropping\<close>

text \<open>
  C4 fails on the code: the third and fourth components of the crop box are the target
  width and height, not the right and lower edges. A 3000 by 1266 image is cropped to the
  columns 540 to 1920 (width 1380, margins 540 and 1080), a 1920 by 2000 image to the rows
  367 to 1266 (height 899, margins 367 and 734).
\<close>

theorem crop_box_not_centred:
  "crop_box 3000 1266 = Inr (540, 0, 1920, 1266) \<and>
   crop_box 1920 2000 = Inr (0, 367, 1920, 1266)"
  by (simp add: crop_box_def Let_def)

subsection \<open>The command line\<close>

text \<open>
  C9: with fewer than two positional arguments (\<open>argv\<close> shorter than 3) the program
  prints the usage message and exits with code 0; with an input path that is no existing
  file it prints the input-file error and exits with code 0. In both cases \<open>main\<close>,
  which alone opens and decodes the image, is not called.
\<close>

theorem cli_handled_errors:
  "(length argv < 3 \<longrightarrow>
      cli isfile parse_float argv =
        Exit [''error: missing arguments'',
              ''usage: ./main.py INPUT_IMAGE OUTPUT_IMAGE [ETH_SCALE]''] 0) \<and>
   (3 \<le> length argv \<and> \<not> isfile (argv ! 1) \<longrightarrow>
      cli isfile parse_float argv = Exit [''error: cannot open input file''] 0) \<and>
   (length argv < 3 \<or> \<not> isfile (argv ! 1) \<longrightarrow>
      (\<forall>i out s. cli isfile parse_float argv \<noteq> CallMain i out s))"
  by (auto simp: cli_def)

theorem cli_handled_errors_witness:
  "cli (\<lambda>p. False) (\<lambda>s. None) [''main.py'', ''in.png''] =
     Exit [''error: missing arguments'',
           ''usage: ./main.py INPUT_IMAGE OUTPUT_IMAGE [ETH_SCALE]''] 0 \<and>
   cli (\<lambda>p. False) (\<lambda>s. None) [''main.py'', ''in.png'', ''out.png''] =
     Exit [''error: cannot open input file''] 0 \<and>
   cli (\<lambda>p. False) (\<lambda>s. None) [''main.py'', ''in.png'', ''out.png''] \<noteq>
     CallMain ''in.png'' ''out.png'' 1"
proof -
  have "length [''main.py'', ''in.png''] < 3"
    by simp
  then have a: "cli (\<lambda>p. False) (\<lambda>s. None) [''main.py'', ''in.png''] =
     Exit [''error: missing arguments'',
           ''usage: ./main.py INPUT_IMAGE OUTPUT_IMAGE [ETH_SCALE]''] 0"
    using cli_handled_errors [of "[''main.py'', ''in.png'']" "\<lambda>p. False" "\<lambda>s. None"]
    by blast
  have "3 \<le> length [''main.py'', ''in.png'', ''out.png''] \<and>
      \<not> (\<lambda>p. False) ([''main.py'', ''in.png'', ''out.png''] ! 1)"
    by simp
  then have b: "cli (\<lambda>p. False) (\<lambda>s. None) [''main.py'', ''in.png'', ''out.png''] =
       Exit [''error: cannot open input file''] 0"
    and c: "cli (\<lambda>p. False) (\<lambda>s. None) [''main.py'', ''in.png'', ''out.png''] \<noteq>
       CallMain ''in.png'' ''out.png'' 1"
    using cli_handled_errors [of "[''main.py'', ''in.png'', ''out.png'']" "\<lambda>p. False" "\<lambda>s. None"]
    by blast+
  from a b c show ?thesis by blast
qed

subsection \<open>The effect of the in-place loops\<close>

lemma in_bounds_size:
  assumes "width im' = width im" and "height im' = height im"
  shows "in_bounds im' p = in_bounds im p"
  using assms by (simp add: in_bounds_def)

lemma putpixel_Inr:
  assumes "putpixel im p v = Inr im'"
  shows "in_bounds im p" and "width im' = width im" and "height im' = height im"
    and "data im' = (data im)(p := v)"
  using assms by (auto simp: putpixel_def split: if_splits)

lemma translation_error:
  assumes "translation tbl k = Inl e"
  shows "e = IndexError"
  using assms
  by (auto simp: translation_def first_vertex_def split: list.splits sum.splits)

text \<open>What a step of the inner loop does when it returns.\<close>

lemma remap_pixel_skip:
  assumes "\<not> contains (tbl k) p"
  shows "remap_pixel tbl k p im = Inr im"
  using assms by (simp add: remap_pixel_def)

lemma remap_pixel_Inr:
  assumes "remap_pixel tbl k p im = Inr im'" and "contains (tbl k) p"
    and "translation tbl k = Inr t"
  shows "in_bounds im (fst p + fst t, snd p + snd t)" and "in_bounds im p"
    and "width im' = width im" and "height im' = height im"
    and "data im' = (data im)(p := filter_px (data im (fst p + fst t, snd p + snd t)))"
  using assms
  by (auto simp: remap_pixel_def getpixel_def putpixel_def split: if_splits)

lemma remap_pixel_size:
  assumes "remap_pixel tbl k p im = Inr im'"
  shows "width im' = width im \<and> height im' = height im"
proof (cases "contains (tbl k) p")
  case True
  with assms obtain t where "translation tbl k = Inr t"
    by (auto simp: remap_pixel_def split: sum.splits)
  from remap_pixel_Inr(3,4) [OF assms True this] show ?thesis by simp
next
  case False
  with assms show ?thesis by (simp add: remap_pixel_def)
qed

lemma remap_pixel_error:
  assumes "remap_pixel tbl k p im = Inl e"
  shows "e = IndexError"
  using assms translation_error [of tbl k e]
  by (auto simp: remap_pixel_def getpixel_def putpixel_def split: if_splits sum.splits)

lemma remap_pixel_ok:
  assumes "translation tbl k = Inr t"
    and "in_bounds im p" and "in_bounds im (fst p + fst t, snd p + snd t)"
  shows "\<exists>im'. remap_pixel tbl k p im = Inr im'"
  using assms by (simp add: remap_pixel_def getpixel_def putpixel_def)

lemma for_each_error:
  assumes "\<And>x st e. body x st = Inl e \<Longrightarrow> e = IndexError"
    and "for_each body xs st = Inl e"
  shows "e = IndexError"
  using assms(2)
proof (induction xs arbitrary: st)
  case Nil
  then show ?case by simp
next
  case (Cons x xs)
  then show ?case
    using assms(1) by (auto split: sum.splits)
qed

lemma region_size:
  assumes "for_each (remap_pixel tbl k) ps im = Inr im'"
  shows "width im' = width im \<and> height im' = height im"
  using assms
proof (induction ps arbitrary: im)
  case Nil
  then show ?case by simp
next
  case (Cons p ps)
  then obtain im1 where 1: "remap_pixel tbl k p im = Inr im1"
    and 2: "for_each (remap_pixel tbl k) ps im1 = Inr im'"
    by (auto split: sum.splits)
  from Cons.IH [OF 2] remap_pixel_size [OF 1] show ?case by simp
qed

lemma region_frame:
  assumes "for_each (remap_pixel tbl k) ps im = Inr im'"
    and "q \<notin> set ps \<or> \<not> contains (tbl k) q"
  shows "data im' q = data im q"
  using assms
proof (induction ps arbitrary: im)
  case Nil
  then show ?case by simp
next
  case (Cons p ps)
  then obtain im1 where 1: "remap_pixel tbl k p im = Inr im1"
    and 2: "for_each (remap_pixel tbl k) ps im1 = Inr im'"
    by (auto split: sum.splits)
  from Cons.prems(2) have q: "q \<notin> set ps \<or> \<not> contains (tbl k) q" by auto
  have "data im1 q = data im q"
  proof (cases "contains (tbl k) p")
    case True
    with 1 obtain t where t: "translation tbl k = Inr t"
      by (auto simp: remap_pixel_def split: sum.splits)
    from True Cons.prems(2) have "q \<noteq> p" by auto
    with remap_pixel_Inr(5) [OF 1 True t] show ?thesis by simp
  next
    case False
    with 1 show ?thesis by (simp add: remap_pixel_def)
  qed
  with Cons.IH [OF 2 q] show ?case by simp
qed

lemma region_reads_in_bounds:
  assumes "for_each (remap_pixel tbl k) ps im = Inr im'"
    and "p \<in> set ps" and "contains (tbl k) p" and "translation tbl k = Inr t"
  shows "in_bounds im (fst p + fst t, snd p + snd t)"
  using assms(1,2)
proof (induction ps arbitrary: im)
  case Nil
  then show ?case by simp
next
  case (Cons a ps)
  then obtain im1 where 1: "remap_pixel tbl k a im = Inr im1"
    and 2: "for_each (remap_pixel tbl k) ps im1 = Inr im'"
    by (auto split: sum.splits)
  show ?case
  proof (cases "a = p")
    case True
    with 1 assms(3,4) show ?thesis
      using remap_pixel_Inr(1) by blast
  next
    case False
    with Cons.prems(2) have "p \<in> set ps" by simp
    from Cons.IH [OF 2 this] remap_pixel_size [OF 1] show ?thesis
      by (simp add: in_bounds_def)
  qed
qed

lemma region_value:
  assumes "for_each (remap_pixel tbl k) ps im = Inr im'"
    and "distinct ps" and "p \<in> set ps" and "contains (tbl k) p"
    and "translation tbl k = Inr t"
    and "(fst p + fst t, snd p + snd t) \<notin> set ps \<or> \<not> contains (tbl k) (fst p + fst t, snd p + snd t)"
  shows "data im' p = filter_px (data im (fst p + fst t, snd p + snd t))"
  using assms(1,2,3,6)
proof (induction ps arbitrary: im)
  case Nil
  then show ?case by simp
next
  case (Cons a ps)
  let ?s = "(fst p + fst t, snd p + snd t)"
  from Cons.prems(1) obtain im1 where 1: "remap_pixel tbl k a im = Inr im1"
    and 2: "for_each (remap_pixel tbl k) ps im1 = Inr im'"
    by (auto split: sum.splits)
  show ?case
  proof (cases "a = p")
    case True
    with Cons.prems(2) have "p \<notin> set ps" by simp
    then have "data im' p = data im1 p"
      using region_frame [OF 2] by blast
    also have "\<dots> = filter_px (data im ?s)"
      using remap_pixel_Inr(5) [OF 1 [unfolded True] assms(4,5)] by simp
    finally show ?thesis .
  next
    case False
    with Cons.prems have p: "p \<in> set ps" and d: "distinct ps"
      and s: "?s \<notin> set ps \<or> \<not> contains (tbl k) ?s"
      by auto
    have "data im1 ?s = data im ?s"
    proof (cases "contains (tbl k) a")
      case True
      with Cons.prems(4) have "?s \<noteq> a" by auto
      with remap_pixel_Inr(5) [OF 1 True assms(5)] show ?thesis by simp
    next
      case False
      with 1 show ?thesis by (simp add: remap_pixel_def)
    qed
    with Cons.IH [OF 2 d p s] show ?thesis by simp
  qed
qed

lemma region_succeeds:
  assumes "translation tbl k = Inr t"
    and "\<And>p. p \<in> set ps \<Longrightarrow> contains (tbl k) p \<Longrightarrow>
           in_bounds im p \<and> in_bounds im (fst p + fst t, snd p + snd t)"
  shows "\<exists>im'. for_each (remap_pixel tbl k) ps im = Inr im'"
  using assms(2)
proof (induction ps arbitrary: im)
  case Nil
  show ?case by simp
next
  case (Cons a ps)
  have "\<exists>im1. remap_pixel tbl k a im = Inr im1"
  proof (cases "contains (tbl k) a")
    case True
    with Cons.prems [of a] show ?thesis
      using remap_pixel_ok [OF assms(1)] by simp
  next
    case False
    then show ?thesis by (simp add: remap_pixel_def)
  qed
  then obtain im1 where 1: "remap_pixel tbl k a im = Inr im1" ..
  have "\<exists>im'. for_each (remap_pixel tbl k) ps im1 = Inr im'"
  proof (rule Cons.IH)
    fix p assume "p \<in> set ps" and "contains (tbl k) p"
    then show "in_bounds im1 p \<and> in_bounds im1 (fst p + fst t, snd p + snd t)"
      using Cons.prems [of p] remap_pixel_size [OF 1] by (simp add: in_bounds_def)
  qed
  with 1 show ?case by simp
qed

subsection \<open>The outline\<close>

lemma paint_size: "width (paint ps im) = width im \<and> height (paint ps im) = height im"
  by (simp add: paint_def)

lemma paint_frame: "q \<notin> set ps \<Longrightarrow> data (paint ps im) q = data im q"
  by (simp add: paint_def)

lemma draw_outline_size:
  "width (draw_outline line im magic) = width im \<and>
   height (draw_outline line im magic) = height im"
proof -
  have "width (fold (\<lambda>e. paint (line e)) es im) = width im \<and>
      height (fold (\<lambda>e. paint (line e)) es im) = height im" for es
    by (induction es arbitrary: im) (simp_all add: paint_size)
  then show ?thesis
    by (simp add: draw_outline_def)
qed

lemma draw_outline_frame:
  assumes "q \<notin> outline_points line magic"
  shows "data (draw_outline line im magic) q = data im q"
proof -
  have "q \<notin> set (concat (map line es)) \<Longrightarrow>
      data (fold (\<lambda>e. paint (line e)) es im) q = data im q" for es
    by (induction es arbitrary: im) (simp_all add: paint_frame)
  with assms show ?thesis
    by (simp add: draw_outline_def outline_points_def)
qed

subsection \<open>One region, then its outline\<close>

lemma distinct_box_points: "distinct (box_points magic)"
proof -
  have "distinct (concat (map (\<lambda>x. map (\<lambda>y. (x, y)) ys) xs))"
    if "distinct xs" and "distinct ys" for xs ys :: "int list"
    using that by (induction xs) (auto simp: distinct_map inj_on_def)
  then show ?thesis
    by (simp add: box_points_def range_py_def split: prod.splits)
qed

lemma written_by_iff: "p \<in> written_by tbl k \<longleftrightarrow> p \<in> set (box_points (tbl k)) \<and> contains (tbl k) p"
  by (simp add: written_by_def)

lemma process_region_Inr:
  assumes "process_region line tbl k im = Inr im'"
  obtains im1 where "for_each (remap_pixel tbl k) (box_points (tbl k)) im = Inr im1"
    and "im' = draw_outline line im1 (tbl k)"
  using assms by (auto simp: process_region_def remap_region_def split: sum.splits)

lemma process_region_size:
  assumes "process_region line tbl k im = Inr im'"
  shows "width im' = width im \<and> height im' = height im"
proof -
  from assms obtain im1 where 1: "for_each (remap_pixel tbl k) (box_points (tbl k)) im = Inr im1"
    and 2: "im' = draw_outline line im1 (tbl k)"
    by (rule process_region_Inr)
  from region_size [OF 1] draw_outline_size [of line im1 "tbl k"] show ?thesis
    unfolding 2 by simp
qed

lemma process_region_frame:
  assumes "process_region line tbl k im = Inr im'"
    and "q \<notin> written_by tbl k" and "q \<notin> outline_points line (tbl k)"
  shows "data im' q = data im q"
proof -
  from assms(1) obtain im1 where 1: "for_each (remap_pixel tbl k) (box_points (tbl k)) im = Inr im1"
    and 2: "im' = draw_outline line im1 (tbl k)"
    by (rule process_region_Inr)
  from assms(2) have "q \<notin> set (box_points (tbl k)) \<or> \<not> contains (tbl k) q"
    by (simp add: written_by_iff)
  from region_frame [OF 1 this] draw_outline_frame [OF assms(3), of im1] show ?thesis
    unfolding 2 by simp
qed

lemma process_region_value:
  assumes "process_region line tbl k im = Inr im'"
    and "p \<in> written_by tbl k" and "translation tbl k = Inr t"
    and "(fst p + fst t, snd p + snd t) \<notin> written_by tbl k"
    and "p \<notin> outline_points line (tbl k)"
  shows "data im' p = filter_px (data im (fst p + fst t, snd p + snd t))"
proof -
  let ?s = "(fst p + fst t, snd p + snd t)"
  from assms(1) obtain im1 where 1: "for_each (remap_pixel tbl k) (box_points (tbl k)) im = Inr im1"
    and 2: "im' = draw_outline line im1 (tbl k)"
    by (rule process_region_Inr)
  from assms(2) have p: "p \<in> set (box_points (tbl k))" "contains (tbl k) p"
    by (simp_all add: written_by_iff)
  from assms(4) have s: "?s \<notin> set (box_points (tbl k)) \<or> \<not> contains (tbl k) ?s"
    by (simp add: written_by_iff)
  have "data im1 p = filter_px (data im ?s)"
    using 1 distinct_box_points p assms(3) s by (rule region_value)
  with draw_outline_frame [OF assms(5), of im1] show ?thesis
    unfolding 2 by simp
qed

lemma process_region_reads:
  assumes "process_region line tbl k im = Inr im'"
    and "p \<in> written_by tbl k" and "translation tbl k = Inr t"
  shows "in_bounds im (fst p + fst t, snd p + snd t)"
proof -
  from assms(1) obtain im1 where 1: "for_each (remap_pixel tbl k) (box_points (tbl k)) im = Inr im1"
    by (rule process_region_Inr)
  from assms(2) have "p \<in> set (box_points (tbl k))" "contains (tbl k) p"
    by (simp_all add: written_by_iff)
  with 1 show ?thesis
    using assms(3) by (rule region_reads_in_bounds)
qed

lemma process_region_error:
  assumes "process_region line tbl k im = Inl e"
  shows "e = IndexError"
proof -
  from assms have "for_each (remap_pixel tbl k) (box_points (tbl k)) im = Inl e"
    by (auto simp: process_region_def remap_region_def split: sum.splits)
  then show ?thesis
    by (rule for_each_error [of "remap_pixel tbl k", rotated]) (rule remap_pixel_error)
qed

lemma process_region_succeeds:
  assumes "translation tbl k = Inr t"
    and "\<And>p. p \<in> written_by tbl k \<Longrightarrow>
           in_bounds im p \<and> in_bounds im (fst p + fst t, snd p + snd t)"
  shows "\<exists>im'. process_region line tbl k im = Inr im'"
proof -
  have "\<exists>im1. for_each (remap_pixel tbl k) (box_points (tbl k)) im = Inr im1"
    using assms(1)
  proof (rule region_succeeds)
    fix p assume "p \<in> set (box_points (tbl k))" and "contains (tbl k) p"
    then show "in_bounds im p \<and> in_bounds im (fst p + fst t, snd p + snd t)"
      using assms(2) [of p] by (simp add: written_by_iff)
  qed
  then show ?thesis
    by (auto simp: process_region_def remap_region_def)
qed

subsection \<open>The loop over the regions\<close>

lemma run_size:
  assumes "for_each (process_region line tbl) ks im = Inr out"
  shows "width out = width im \<and> height out = height im"
  using assms
proof (induction ks arbitrary: im)
  case Nil
  then show ?case by simp
next
  case (Cons k ks)
  then obtain im1 where 1: "process_region line tbl k im = Inr im1"
    and 2: "for_each (process_region line tbl) ks im1 = Inr out"
    by (auto split: sum.splits)
  from Cons.IH [OF 2] process_region_size [OF 1] show ?case by simp
qed

lemma run_frame:
  assumes "for_each (process_region line tbl) ks im = Inr out"
    and "\<And>k. k \<in> set ks \<Longrightarrow> q \<notin> written_by tbl k \<and> q \<notin> outline_points line (tbl k)"
  shows "data out q = data im q"
  using assms
proof (induction ks arbitrary: im)
  case Nil
  then show ?case by simp
next
  case (Cons k ks)
  from Cons.prems(1) obtain im1 where 1: "process_region line tbl k im = Inr im1"
    and 2: "for_each (process_region line tbl) ks im1 = Inr out"
    by (auto split: sum.splits)
  have "data im1 q = data im q"
    using 1 Cons.prems(2) [of k] by (simp add: process_region_frame)
  moreover have "data out q = data im1 q"
    using 2 Cons.prems(2) by (intro Cons.IH) simp_all
  ultimately show ?case by simp
qed

lemma run_error:
  assumes "for_each (process_region line tbl) ks im = Inl e"
  shows "e = IndexError"
  using assms
  by (rule for_each_error [of "process_region line tbl", rotated]) (rule process_region_error)

lemma run_reads:
  assumes "for_each (process_region line tbl) ks im = Inr out"
    and "k \<in> set ks" and "p \<in> written_by tbl k" and "translation tbl k = Inr t"
  shows "in_bounds im (fst p + fst t, snd p + snd t)"
  using assms(1,2)
proof (induction ks arbitrary: im)
  case Nil
  then show ?case by simp
next
  case (Cons j ks)
  from Cons.prems(1) obtain im1 where 1: "process_region line tbl j im = Inr im1"
    and 2: "for_each (process_region line tbl) ks im1 = Inr out"
    by (auto split: sum.splits)
  show ?case
  proof (cases "j = k")
    case True
    with 1 assms(3,4) show ?thesis
      using process_region_reads by blast
  next
    case False
    with Cons.prems(2) have "k \<in> set ks" by simp
    from Cons.IH [OF 2 this] process_region_size [OF 1] show ?thesis
      by (simp add: in_bounds_def)
  qed
qed

lemma run_succeeds:
  assumes "\<And>k. k \<in> set ks \<Longrightarrow> translation tbl k = Inr (t k)"
    and "\<And>k p. k \<in> set ks \<Longrightarrow> p \<in> written_by tbl k \<Longrightarrow>
           in_bounds im p \<and> in_bounds im (fst p + fst (t k), snd p + snd (t k))"
  shows "\<exists>out. for_each (process_region line tbl) ks im = Inr out"
  using assms
proof (induction ks arbitrary: im)
  case Nil
  show ?case by simp
next
  case (Cons k ks)
  have "\<exists>im1. process_region line tbl k im = Inr im1"
    using Cons.prems(1) [of k] Cons.prems(2) [of k]
    by (intro process_region_succeeds [where t = "t k"]) simp_all
  then obtain im1 where 1: "process_region line tbl k im = Inr im1" ..
  have "\<exists>out. for_each (process_region line tbl) ks im1 = Inr out"
  proof (rule Cons.IH)
    fix j assume "j \<in> set ks"
    then show "translation tbl j = Inr (t j)"
      using Cons.prems(1) by simp
  next
    fix j p assume "j \<in> set ks" and "p \<in> written_by tbl j"
    then show "in_bounds im1 p \<and> in_bounds im1 (fst p + fst (t j), snd p + snd (t j))"
      using Cons.prems(2) [of j p] process_region_size [OF 1] by (simp add: in_bounds_def)
  qed
  with 1 show ?case by simp
qed

lemma run_value:
  assumes "for_each (process_region line tbl) (ks1 @ k # ks2) im = Inr out"
    and "p \<in> written_by tbl k" and "translation tbl k = Inr t"
    and "(fst p + fst t, snd p + snd t) \<notin> written_by tbl k"
    and "p \<notin> outline_points line (tbl k)"
    and "\<And>j. j \<in> set ks2 \<Longrightarrow> p \<notin> written_by tbl j \<and> p \<notin> outline_points line (tbl j)"
  obtains im1 where "for_each (process_region line tbl) ks1 im = Inr im1"
    and "data out p = filter_px (data im1 (fst p + fst t, snd p + snd t))"
proof -
  from assms(1) obtain im1 im2 where 1: "for_each (process_region line tbl) ks1 im = Inr im1"
    and 2: "process_region line tbl k im1 = Inr im2"
    and 3: "for_each (process_region line tbl) ks2 im2 = Inr out"
    by (auto simp: for_each_append split: sum.splits)
  have "data im2 p = filter_px (data im1 (fst p + fst t, snd p + snd t))"
    using 2 assms(2-5) by (rule process_region_value)
  moreover have "data out p = data im2 p"
    using 3 assms(6) by (rule run_frame)
  ultimately show ?thesis
    using 1 that by simp
qed

subsection \<open>Evaluation on concrete images\<close>

lemmas geometry_simps = orientations_def box_points_def bounds_def range_py_def contains_def
  edges_def on_segment_def crosses_def translation_def first_vertex_def py_int_def

subsection \<open>The unguarded source read\<close>

text \<open>
  C10: the pixel (x + x_trans, y + y_trans) is read without a bounds check. A step on a
  pixel classified inside a region whose mirrored source is outside the image raises
  \<open>IndexError\<close>, and so does every run of \<open>main\<close> in which such a pixel exists:
  the remap is defined only if every mirrored source is inside the image. Nothing
  establishes that: at scale 2 on a 20 by 13 image the pixel (9, 6) of the region
  top-left has its source at (13, 13).
\<close>

theorem unguarded_source_read:
  "(contains (tbl k) p \<and> translation tbl k = Inr t \<and>
      \<not> in_bounds pixels (fst p + fst t, snd p + snd t) \<longrightarrow>
        remap_pixel tbl k p pixels = Inl IndexError) \<and>
   (scale_magics magics eth_scale (of_int (width im)) (of_int (height im)) = Inr tbl \<and>
      p \<in> written_by tbl k \<and> translation tbl k = Inr t \<and>
      \<not> in_bounds im (fst p + fst t, snd p + snd t) \<longrightarrow>
        main_remap line eth_scale im = Inl IndexError)"
proof (intro conjI impI)
  assume "contains (tbl k) p \<and> translation tbl k = Inr t \<and>
      \<not> in_bounds pixels (fst p + fst t, snd p + snd t)"
  then show "remap_pixel tbl k p pixels = Inl IndexError"
    by (simp add: remap_pixel_def getpixel_def)
next
  assume a: "scale_magics magics eth_scale (of_int (width im)) (of_int (height im)) = Inr tbl \<and>
      p \<in> written_by tbl k \<and> translation tbl k = Inr t \<and>
      \<not> in_bounds im (fst p + fst t, snd p + snd t)"
  then have run: "main_remap line eth_scale im = for_each (process_region line tbl) orientations im"
    by (simp add: main_remap_def remap_all_def)
  have k: "k \<in> set orientations"
    by (cases k) (simp_all add: orientations_def)
  show "main_remap line eth_scale im = Inl IndexError"
  proof (cases "for_each (process_region line tbl) orientations im")
    case (Inl e)
    then show ?thesis
      unfolding run using run_error by blast
  next
    case (Inr out)
    from run_reads [OF Inr k] a have False by blast
    then show ?thesis ..
  qed
qed

theorem unguarded_source_read_witness:
  "(9, 6) \<in> written_by (\<lambda>k. scaled 2 20 13 (magics k)) TopLeft \<and>
   translation (\<lambda>k. scaled 2 20 13 (magics k)) TopLeft = Inr (4, 7) \<and>
   \<not> in_bounds (solid 20 13 (128, 128, 128)) (9 + 4, 6 + 7) \<and>
   remap_pixel (\<lambda>k. scaled 2 20 13 (magics k)) TopLeft (9, 6) (solid 20 13 (128, 128, 128)) =
     Inl IndexError \<and>
   main_remap no_line 2 (solid 20 13 (128, 128, 128)) = Inl IndexError"
proof -
  let ?tbl = "\<lambda>k. scaled 2 20 13 (magics k)"
  let ?im = "solid 20 13 (128, 128, 128)"
  have tbl: "scale_magics magics 2 (of_int (width ?im)) (of_int (height ?im)) = Inr ?tbl"
    by (simp add: scale_magics_templates solid_def)
  have c: "contains (?tbl TopLeft) (9, 6)"
    by (simp add: scaled_def radial_def geometry_simps)
  have w: "(9, 6) \<in> written_by ?tbl TopLeft"
    by (simp add: written_by_def scaled_def radial_def geometry_simps)
  have t: "translation ?tbl TopLeft = Inr (4, 7)"
    by (simp add: scaled_def radial_def geometry_simps)
  have b: "\<not> in_bounds ?im (fst (9, 6) + fst (4, 7), snd (9, 6) + snd (4, 7))"
    by (simp add: in_bounds_def solid_def)
  from unguarded_source_read [of ?tbl TopLeft "(9, 6)" "(4, 7)" ?im 2 ?im no_line]
    tbl c w t b
  have "remap_pixel ?tbl TopLeft (9, 6) ?im = Inl IndexError"
    and "main_remap no_line 2 ?im = Inl IndexError"
    by blast+
  with w t b show ?thesis
    by simp
qed

subsection \<open>The solid gray image of 1920 by 1266 pixels\<close>

lemma set_range_py: "set (range_py a b) = {x. a \<le> x \<and> x < b}"
  by (auto simp: range_py_def)

lemma set_box_points:
  "set (box_points magic) =
     (case bounds magic of (min_x, min_y, max_x, max_y) \<Rightarrow>
        {p. \<lfloor>min_x\<rfloor> \<le> fst p \<and> fst p < \<lceil>max_x\<rceil> \<and> \<lfloor>min_y\<rfloor> \<le> snd p \<and> snd p < \<lceil>max_y\<rceil>})"
  by (auto simp: box_points_def set_range_py split: prod.splits)

lemma box_1920:
  "set (box_points (templates_at 1 1920 1266 TopLeft)) = {p. 754 \<le> fst p \<and> fst p < 960 \<and> 231 \<le> snd p \<and> snd p < 682}"
  "set (box_points (templates_at 1 1920 1266 TopRight)) = {p. 960 \<le> fst p \<and> fst p < 1160 \<and> 231 \<le> snd p \<and> snd p < 682}"
  "set (box_points (templates_at 1 1920 1266 BottomLeft)) = {p. 752 \<le> fst p \<and> fst p < 960 \<and> 597 \<le> snd p \<and> snd p < 883}"
  "set (box_points (templates_at 1 1920 1266 BottomRight)) = {p. 960 \<le> fst p \<and> fst p < 1162 \<and> 597 \<le> snd p \<and> snd p < 883}"
  by (simp_all add: set_box_points templates_at_def scaled_one bounds_def)

lemma translation_1920:
  "translation (templates_at 1 1920 1266) TopLeft = Inr (201, 365)"
  "translation (templates_at 1 1920 1266) TopRight = Inr (- 207, 365)"
  "translation (templates_at 1 1920 1266) BottomLeft = Inr (207, - 365)"
  "translation (templates_at 1 1920 1266) BottomRight = Inr (- 201, - 365)"
  by (simp_all add: templates_at_def scaled_one translation_def first_vertex_def py_int_def)

lemma in_orientations: "k \<in> set orientations"
  by (cases k) (simp_all add: orientations_def)

lemma orientations_split: "orientations = earlier k @ k # later k"
  by (cases k) (simp_all add: orientations_def earlier_def later_def)

lemma main_remap_one:
  "main_remap line 1 (solid w h v) =
     for_each (process_region line (templates_at 1 (of_int w) (of_int h))) orientations (solid w h v)"
proof -
  have "(\<lambda>k. scaled 1 (of_int w) (of_int h) (magics k)) = templates_at 1 (of_int w) (of_int h)"
    by (rule ext) (simp add: templates_at_def)
  then show ?thesis
    by (simp add: main_remap_def scale_magics_templates remap_all_def solid_def)
qed

lemma run_1920_succeeds:
  "\<exists>out. for_each (process_region line (templates_at 1 1920 1266)) orientations
            (solid 1920 1266 v) = Inr out"
proof -
  let ?T = "templates_at 1 1920 1266"
  define t :: "orientation \<Rightarrow> point" where
    "t k = (case k of TopLeft \<Rightarrow> (201, 365) | TopRight \<Rightarrow> (- 207, 365)
            | BottomLeft \<Rightarrow> (207, - 365) | BottomRight \<Rightarrow> (- 201, - 365))" for k
  show ?thesis
  proof (rule run_succeeds [where t = t])
    fix k show "translation ?T k = Inr (t k)"
      by (cases k) (simp_all add: t_def translation_1920)
  next
    fix k p assume "p \<in> written_by ?T k"
    then have "p \<in> set (box_points (?T k))"
      by (simp add: written_by_iff)
    then show "in_bounds (solid 1920 1266 v) p \<and>
        in_bounds (solid 1920 1266 v) (fst p + fst (t k), snd p + snd (t k))"
      by (cases k) (simp_all add: box_1920 t_def in_bounds_def solid_def)
  qed
qed

lemma outline_no_line: "outline_points no_line magic = {}"
  by (simp add: outline_points_def no_line_def)

lemmas contains_simps = templates_at_def scaled_one contains_def edges_def on_segment_def
  crosses_def

lemma pixel_958_235:
  "(958, 235) \<in> written_by (templates_at 1 1920 1266) TopLeft"
  "(958, 235) \<notin> written_by (templates_at 1 1920 1266) TopRight"
  "(958, 235) \<notin> written_by (templates_at 1 1920 1266) BottomLeft"
  "(958, 235) \<notin> written_by (templates_at 1 1920 1266) BottomRight"
  unfolding written_by_iff box_1920
  by (simp_all add: contains_simps)

lemma pixel_1159_600:
  "(1159, 600) \<notin> written_by (templates_at 1 1920 1266) TopLeft"
  "(1159, 600) \<in> written_by (templates_at 1 1920 1266) BottomRight"
  unfolding written_by_iff box_1920
  by (simp_all add: contains_simps)

lemma pixel_0_0: "(0, 0) \<notin> written_by (templates_at 1 1920 1266) k"
  unfolding written_by_iff by (cases k) (simp_all add: box_1920)

lemma paint_value:
  "data (paint ps im) q = data im q \<or> data (paint ps im) q = (180, 180, 180)"
  by (simp add: paint_def)

lemma draw_outline_value:
  "data (draw_outline line im magic) q = data im q \<or>
   data (draw_outline line im magic) q = (180, 180, 180)"
proof -
  have "data (fold (\<lambda>e. paint (line e)) es im) q = data im q \<or>
      data (fold (\<lambda>e. paint (line e)) es im) q = (180, 180, 180)" for es
  proof (induction es arbitrary: im)
    case Nil
    show ?case by simp
  next
    case (Cons e es)
    from Cons.IH [of "paint (line e) im"] paint_value [of "line e" im q] show ?case
      by auto
  qed
  then show ?thesis
    by (simp add: draw_outline_def)
qed

lemma process_region_kept_or_painted:
  assumes "process_region line tbl k im = Inr im'" and "q \<notin> written_by tbl k"
  shows "data im' q = data im q \<or> data im' q = (180, 180, 180)"
proof -
  from assms(1) obtain im1 where 1: "for_each (remap_pixel tbl k) (box_points (tbl k)) im = Inr im1"
    and 2: "im' = draw_outline line im1 (tbl k)"
    by (rule process_region_Inr)
  from assms(2) have "q \<notin> set (box_points (tbl k)) \<or> \<not> contains (tbl k) q"
    by (simp add: written_by_iff)
  from region_frame [OF 1 this] draw_outline_value [of line im1 "tbl k" q] show ?thesis
    unfolding 2 by auto
qed

lemma process_region_written_or_painted:
  assumes "process_region line tbl k im = Inr im'"
    and "p \<in> written_by tbl k" and "translation tbl k = Inr t"
    and "(fst p + fst t, snd p + snd t) \<notin> written_by tbl k"
  shows "data im' p = filter_px (data im (fst p + fst t, snd p + snd t)) \<or>
         data im' p = (180, 180, 180)"
proof -
  let ?s = "(fst p + fst t, snd p + snd t)"
  from assms(1) obtain im1 where 1: "for_each (remap_pixel tbl k) (box_points (tbl k)) im = Inr im1"
    and 2: "im' = draw_outline line im1 (tbl k)"
    by (rule process_region_Inr)
  from assms(2) have p: "p \<in> set (box_points (tbl k))" "contains (tbl k) p"
    by (simp_all add: written_by_iff)
  from assms(4) have s: "?s \<notin> set (box_points (tbl k)) \<or> \<not> contains (tbl k) ?s"
    by (simp add: written_by_iff)
  have "data im1 p = filter_px (data im ?s)"
    using 1 distinct_box_points p assms(3) s by (rule region_value)
  with draw_outline_value [of line im1 "tbl k" p] show ?thesis
    unfolding 2 by auto
qed

lemma gray_1920_twice:
  assumes "main_remap line 1 (solid 1920 1266 (128, 128, 128)) = Inr out"
  shows "data out (1159, 600) \<in> {(215, 215, 215), (234, 234, 234), (180, 180, 180)}"
proof -
  let ?T = "templates_at 1 1920 1266"
  let ?G = "solid 1920 1266 (128, 128, 128)"
  let ?p = "(1159, 600) :: point" and ?q = "(958, 235) :: point"
  from assms have "for_each (process_region line ?T) orientations ?G = Inr out"
    using main_remap_one [of line 1920 1266] by simp
  then obtain im1 im2 im3
    where 1: "process_region line ?T TopLeft ?G = Inr im1"
      and 2: "process_region line ?T TopRight im1 = Inr im2"
      and 3: "process_region line ?T BottomLeft im2 = Inr im3"
      and 4: "process_region line ?T BottomRight im3 = Inr out"
    by (auto simp: orientations_def split: sum.splits)
  have "data im1 ?q = filter_px (data ?G (fst ?q + fst ((201, 365) :: point),
      snd ?q + snd ((201, 365) :: point))) \<or> data im1 ?q = (180, 180, 180)"
    using 1 pixel_958_235(1) translation_1920(1)
  proof (rule process_region_written_or_painted)
    show "(fst ?q + fst ((201, 365) :: point), snd ?q + snd ((201, 365) :: point))
        \<notin> written_by ?T TopLeft"
      using pixel_1159_600(1) by simp
  qed
  then have a: "data im1 ?q = (166, 166, 166) \<or> data im1 ?q = (180, 180, 180)"
    by (simp add: solid_def limit_floor)
  have b: "data im2 ?q = (166, 166, 166) \<or> data im2 ?q = (180, 180, 180)"
    using process_region_kept_or_painted [OF 2 pixel_958_235(2)] a by auto
  have c: "data im3 ?q = (166, 166, 166) \<or> data im3 ?q = (180, 180, 180)"
    using process_region_kept_or_painted [OF 3 pixel_958_235(3)] b by auto
  have "data out ?p = filter_px (data im3 (fst ?p + fst ((- 201, - 365) :: point),
      snd ?p + snd ((- 201, - 365) :: point))) \<or> data out ?p = (180, 180, 180)"
    using 4 pixel_1159_600(2) translation_1920(4)
  proof (rule process_region_written_or_painted)
    show "(fst ?p + fst ((- 201, - 365) :: point), snd ?p + snd ((- 201, - 365) :: point))
        \<notin> written_by ?T BottomRight"
      using pixel_958_235(4) by simp
  qed
  then have "data out ?p = filter_px (data im3 ?q) \<or> data out ?p = (180, 180, 180)"
    by simp
  with c show ?thesis
    by (auto simp: limit_floor)
qed

text \<open>
  C2, amended: on a 1920 by 1266 image whose every pixel is (128, 128, 128), at scale 1
  and for every line rasteriser, the remap succeeds and keeps the size; every pixel that
  is inside none of the four regions and on no outline still has (128, 128, 128); every
  pixel inside a region whose mirrored source had not been written when it was read, and
  which is not written again later (by a later region or an outline), has
  (166, 166, 166). The pixel (1159, 600) of the region bottom-right, whose mirrored source
  has been written by the region top-left, has (215, 215, 215), or (234, 234, 234) when
  an outline covered that source, or the outline colour (180, 180, 180): whatever the
  rasteriser covers, it is not (166, 166, 166).
\<close>

theorem gray_1920_remap:
  "\<exists>out. main_remap line 1 (solid 1920 1266 (128, 128, 128)) = Inr out \<and>
     width out = 1920 \<and> height out = 1266 \<and>
     (\<forall>q. (\<forall>k. q \<notin> written_by (templates_at 1 1920 1266) k \<and>
               q \<notin> outline_points line (templates_at 1 1920 1266 k)) \<longrightarrow>
          data out q = (128, 128, 128)) \<and>
     (\<forall>k p t. p \<in> written_by (templates_at 1 1920 1266) k \<and>
          translation (templates_at 1 1920 1266) k = Inr t \<and>
          unwritten_before line (templates_at 1 1920 1266) k (fst p + fst t, snd p + snd t) \<and>
          kept_after line (templates_at 1 1920 1266) k p \<longrightarrow>
          data out p = (166, 166, 166)) \<and>
     data out (1159, 600) \<in> {(215, 215, 215), (234, 234, 234), (180, 180, 180)}"
proof -
  let ?T = "templates_at 1 1920 1266"
  let ?G = "solid 1920 1266 (128, 128, 128)"
  have run: "main_remap line 1 ?G = for_each (process_region line ?T) orientations ?G"
    using main_remap_one [of line 1920 1266] by simp
  obtain out where out: "for_each (process_region line ?T) orientations ?G = Inr out"
    using run_1920_succeeds by blast
  have size: "width out = 1920 \<and> height out = 1266"
    using run_size [OF out] by (simp add: solid_def)
  have outside: "data out q = (128, 128, 128)"
    if "\<forall>k. q \<notin> written_by ?T k \<and> q \<notin> outline_points line (?T k)" for q
  proof -
    have "data out q = data ?G q"
      using out
    proof (rule run_frame)
      fix k show "q \<notin> written_by ?T k \<and> q \<notin> outline_points line (?T k)"
        using that by blast
    qed
    then show ?thesis by (simp add: solid_def)
  qed
  have inside: "data out p = (166, 166, 166)"
    if p: "p \<in> written_by ?T k" and t: "translation ?T k = Inr t"
      and s: "unwritten_before line ?T k (fst p + fst t, snd p + snd t)"
      and kept: "kept_after line ?T k p" for k p t
  proof -
    let ?s = "(fst p + fst t, snd p + snd t)"
    from out have split: "for_each (process_region line ?T) (earlier k @ k # later k) ?G = Inr out"
      using orientations_split [of k] by simp
    from s have s1: "?s \<notin> written_by ?T k"
      and s2: "\<And>j. j \<in> set (earlier k) \<Longrightarrow>
                 ?s \<notin> written_by ?T j \<and> ?s \<notin> outline_points line (?T j)"
      by (simp_all add: unwritten_before_def list_all_iff)
    from kept have k1: "p \<notin> outline_points line (?T k)"
      and k2: "\<And>j. j \<in> set (later k) \<Longrightarrow>
                 p \<notin> written_by ?T j \<and> p \<notin> outline_points line (?T j)"
      by (simp_all add: kept_after_def list_all_iff)
    from split p t s1 k1 k2 obtain im1
      where 1: "for_each (process_region line ?T) (earlier k) ?G = Inr im1"
        and 2: "data out p = filter_px (data im1 ?s)"
      by (rule run_value)
    have "data im1 ?s = data ?G ?s"
      using 1 s2 by (rule run_frame)
    with 2 show ?thesis
      by (simp add: solid_def limit_floor)
  qed
  show ?thesis
  proof (intro exI [of _ out] conjI allI impI)
    show "main_remap line 1 ?G = Inr out"
      using run out by simp
    show "width out = 1920" and "height out = 1266"
      using size by simp_all
  next
    fix q
    assume "\<forall>k. q \<notin> written_by ?T k \<and> q \<notin> outline_points line (?T k)"
    then show "data out q = (128, 128, 128)"
      by (rule outside)
  next
    fix k p t
    assume "p \<in> written_by ?T k \<and> translation ?T k = Inr t \<and>
        unwritten_before line ?T k (fst p + fst t, snd p + snd t) \<and> kept_after line ?T k p"
    then show "data out p = (166, 166, 166)"
      using inside [of p k t] by simp
  next
    show "data out (1159, 600) \<in> {(215, 215, 215), (234, 234, 234), (180, 180, 180)}"
      using run out by (intro gray_1920_twice) simp
  qed
qed

text \<open>
  C2, as stated, fails: the pixel (1159, 600) is inside the region bottom-right; its
  mirrored source (958, 235) is inside the region top-left, which has been remapped
  before, so the pixel is brightened twice and has (215, 215, 215) after the remap.
\<close>

theorem gray_1920_counterexample:
  "(1159, 600) \<in> written_by (templates_at 1 1920 1266) BottomRight \<and>
   (case main_remap no_line 1 (solid 1920 1266 (128, 128, 128)) of
      Inl e \<Rightarrow> None
    | Inr out \<Rightarrow> Some (data out (1159, 600))) = Some (215, 215, 215)"
proof -
  let ?T = "templates_at 1 1920 1266"
  let ?G = "solid 1920 1266 (128, 128, 128)"
  let ?p = "(1159, 600) :: point" and ?t = "(- 201, - 365) :: point"
  let ?q = "(958, 235) :: point" and ?u = "(201, 365) :: point"
  have run: "main_remap no_line 1 ?G = for_each (process_region no_line ?T) orientations ?G"
    using main_remap_one [of no_line 1920 1266] by simp
  obtain out where out: "for_each (process_region no_line ?T) orientations ?G = Inr out"
    using run_1920_succeeds by blast
  then have "for_each (process_region no_line ?T) ([TopLeft, TopRight, BottomLeft] @ BottomRight # []) ?G
      = Inr out"
    by (simp add: orientations_def)
  then obtain im1
    where 1: "for_each (process_region no_line ?T) [TopLeft, TopRight, BottomLeft] ?G = Inr im1"
      and 2: "data out (1159, 600) =
        filter_px (data im1 (fst ?p + fst ?t, snd ?p + snd ?t))"
  proof (rule run_value)
    show "(1159, 600) \<in> written_by ?T BottomRight"
      by (rule pixel_1159_600)
    show "translation ?T BottomRight = Inr (- 201, - 365)"
      by (rule translation_1920)
    show "(fst ?p + fst ?t, snd ?p + snd ?t) \<notin> written_by ?T BottomRight"
      using pixel_958_235(4) by simp
    show "(1159, 600) \<notin> outline_points no_line (?T BottomRight)"
      by (simp add: outline_no_line)
  qed simp_all
  from 1 have "for_each (process_region no_line ?T) ([] @ TopLeft # [TopRight, BottomLeft]) ?G
      = Inr im1"
    by simp
  then obtain im0
    where 3: "for_each (process_region no_line ?T) [] ?G = Inr im0"
      and 4: "data im1 (958, 235) =
        filter_px (data im0 (fst ?q + fst ?u, snd ?q + snd ?u))"
  proof (rule run_value)
    show "(958, 235) \<in> written_by ?T TopLeft"
      by (rule pixel_958_235)
    show "translation ?T TopLeft = Inr (201, 365)"
      by (rule translation_1920)
    show "(fst ?q + fst ?u, snd ?q + snd ?u) \<notin> written_by ?T TopLeft"
      using pixel_1159_600(1) by simp
    show "(958, 235) \<notin> outline_points no_line (?T TopLeft)"
      by (simp add: outline_no_line)
    fix j assume "j \<in> set [TopRight, BottomLeft]"
    then show "(958, 235) \<notin> written_by ?T j \<and> (958, 235) \<notin> outline_points no_line (?T j)"
      using pixel_958_235(2,3) by (auto simp: outline_no_line)
  qed
  from 3 have "im0 = ?G" by simp
  with 4 have "data im1 (958, 235) = (166, 166, 166)"
    by (simp add: solid_def limit_floor)
  with 2 have "data out (1159, 600) = (215, 215, 215)"
    by (simp add: limit_floor)
  with run out pixel_1159_600(2) show ?thesis
    by simp
qed

theorem gray_1920_remap_witness:
  "\<exists>out. main_remap no_line 1 (solid 1920 1266 (128, 128, 128)) = Inr out \<and>
     data out (0, 0) = (128, 128, 128) \<and> data out (958, 235) = (166, 166, 166)"
proof -
  let ?T = "templates_at 1 1920 1266"
  from gray_1920_remap [of no_line] obtain out
    where run: "main_remap no_line 1 (solid 1920 1266 (128, 128, 128)) = Inr out"
      and outside: "\<And>q. (\<forall>k. q \<notin> written_by ?T k \<and> q \<notin> outline_points no_line (?T k)) \<Longrightarrow>
          data out q = (128, 128, 128)"
      and inside: "\<And>k p t. p \<in> written_by ?T k \<and> translation ?T k = Inr t \<and>
          unwritten_before no_line ?T k (fst p + fst t, snd p + snd t) \<and>
          kept_after no_line ?T k p \<Longrightarrow> data out p = (166, 166, 166)"
    by blast
  have "data out (0, 0) = (128, 128, 128)"
    by (rule outside) (simp add: pixel_0_0 outline_no_line)
  moreover have "data out (958, 235) = (166, 166, 166)"
  proof (rule inside [of _ TopLeft "(201, 365)"], intro conjI)
    show "(958, 235) \<in> written_by ?T TopLeft"
      by (rule pixel_958_235)
    show "translation ?T TopLeft = Inr (201, 365)"
      by (rule translation_1920)
    show "unwritten_before no_line ?T TopLeft
        (fst ((958, 235) :: point) + fst ((201, 365) :: point),
         snd ((958, 235) :: point) + snd ((201, 365) :: point))"
      using pixel_1159_600(1)
      by (simp add: unwritten_before_def earlier_def orientations_def)
    show "kept_after no_line ?T TopLeft (958, 235)"
      using pixel_958_235(2,3,4)
      by (simp add: kept_after_def later_def orientations_def outline_no_line)
  qed
  ultimately show ?thesis
    using run by blast
qed

subsection \<open>In-place remapping against the snapshot design\<close>

lemma agree_sym_size: "agree S a b \<Longrightarrow> width a = width b \<and> height a = height b"
  by (simp add: agree_def)

lemma agree_mono: "agree S a b \<Longrightarrow> S \<subseteq> S' \<Longrightarrow> agree S' a b"
  by (auto simp: agree_def)

lemma getpixel_same_size:
  assumes "width a = width b" and "height a = height b"
  shows "getpixel a s = Inl e \<longleftrightarrow> getpixel b s = Inl e"
  using assms by (auto simp: getpixel_def in_bounds_def)

text \<open>One step of the two loops, side by side.\<close>

lemma step_same_outside:
  assumes ab: "agree S a b" and aw: "agree W a snap"
    and c: "contains (tbl k) p" and t: "translation tbl k = Inr t"
  shows "(\<exists>e. remap_pixel tbl k p a = Inl e \<and> snapshot_pixel snap tbl k p b = Inl e) \<or>
         (\<exists>a' b'. remap_pixel tbl k p a = Inr a' \<and> snapshot_pixel snap tbl k p b = Inr b' \<and>
            agree (S \<union> (if (fst p + fst t, snd p + snd t) \<in> W then {p} else {})) a' b' \<and>
            agree (insert p W) a' snap)"
proof -
  let ?s = "(fst p + fst t, snd p + snd t)"
  from ab aw have size: "width a = width b" "height a = height b"
    "width a = width snap" "height a = height snap"
    by (simp_all add: agree_def)
  show ?thesis
  proof (cases "in_bounds a ?s \<and> in_bounds a p")
    case False
    then have "remap_pixel tbl k p a = Inl IndexError"
      using c t by (auto simp: remap_pixel_def getpixel_def putpixel_def)
    moreover from False size have "snapshot_pixel snap tbl k p b = Inl IndexError"
      using c t by (auto simp: snapshot_pixel_def getpixel_def putpixel_def in_bounds_def)
    ultimately show ?thesis by blast
  next
    case True
    let ?a' = "a\<lparr>data := (data a)(p := filter_px (data a ?s))\<rparr>"
    let ?b' = "b\<lparr>data := (data b)(p := filter_px (data snap ?s))\<rparr>"
    from True have 1: "remap_pixel tbl k p a = Inr ?a'"
      using c t by (simp add: remap_pixel_def getpixel_def putpixel_def)
    from True size have 2: "snapshot_pixel snap tbl k p b = Inr ?b'"
      using c t by (simp add: snapshot_pixel_def getpixel_def putpixel_def in_bounds_def)
    have 3: "agree (insert p W) ?a' snap"
      using aw by (auto simp: agree_def)
    have 4: "agree (S \<union> (if ?s \<in> W then {p} else {})) ?a' ?b'"
    proof (cases "?s \<in> W")
      case True
      with ab show ?thesis by (auto simp: agree_def)
    next
      case False
      with aw have "data a ?s = data snap ?s"
        by (simp add: agree_def)
      with ab False show ?thesis by (auto simp: agree_def)
    qed
    from 1 2 3 4 show ?thesis by blast
  qed
qed

lemma region_same_outside:
  assumes "agree S a b" and "agree W a snap"
  shows "(\<exists>e. for_each (remap_pixel tbl k) ps a = Inl e \<and>
              for_each (snapshot_pixel snap tbl k) ps b = Inl e) \<or>
         (\<exists>a' b'. for_each (remap_pixel tbl k) ps a = Inr a' \<and>
              for_each (snapshot_pixel snap tbl k) ps b = Inr b' \<and>
              agree (S \<union> stale_in_region tbl k W ps) a' b' \<and>
              agree (W \<union> {p \<in> set ps. contains (tbl k) p}) a' snap)"
  using assms
proof (induction ps arbitrary: S W a b)
  case Nil
  then show ?case by simp
next
  case (Cons p ps)
  show ?case
  proof (cases "contains (tbl k) p")
    case False
    then have step: "remap_pixel tbl k p a = Inr a" "snapshot_pixel snap tbl k p b = Inr b"
      by (simp_all add: remap_pixel_def snapshot_pixel_def)
    from False have sets: "{q \<in> set (p # ps). contains (tbl k) q} = {q \<in> set ps. contains (tbl k) q}"
      by auto
    from Cons.IH [OF Cons.prems] show ?thesis
      unfolding sets using False by (simp add: step)
  next
    case True
    then have sets: "W \<union> {q \<in> set (p # ps). contains (tbl k) q} =
        insert p W \<union> {q \<in> set ps. contains (tbl k) q}"
      by auto
    show ?thesis
    proof (cases "translation tbl k")
      case (Inl e)
      with True show ?thesis
        by (simp add: remap_pixel_def snapshot_pixel_def)
    next
      case (Inr t)
      let ?new = "if (fst p + fst t, snd p + snd t) \<in> W then {p} else {}"
      have st: "S \<union> stale_in_region tbl k W (p # ps) =
          (S \<union> ?new) \<union> stale_in_region tbl k (insert p W) ps"
        using True Inr by auto
      from step_same_outside [OF Cons.prems True Inr]
      consider (err) e where "remap_pixel tbl k p a = Inl e" "snapshot_pixel snap tbl k p b = Inl e"
        | (ok) a' b' where "remap_pixel tbl k p a = Inr a'" "snapshot_pixel snap tbl k p b = Inr b'"
            "agree (S \<union> ?new) a' b'" "agree (insert p W) a' snap"
        by blast
      then show ?thesis
      proof cases
        case err
        then show ?thesis by simp
      next
        case ok
        from Cons.IH [OF ok(3,4)] show ?thesis
          unfolding st sets by (simp add: ok(1,2))
      qed
    qed
  qed
qed

lemma paint_agree2:
  assumes "agree S a b"
  shows "agree S (paint ps a) (paint ps b)"
  using assms by (auto simp: agree_def paint_def in_bounds_def)

lemma paint_agree_snap:
  assumes "agree W a snap"
  shows "agree (W \<union> set ps) (paint ps a) snap"
  using assms by (auto simp: agree_def paint_def)

lemma draw_outline_agree2:
  assumes "agree S a b"
  shows "agree S (draw_outline line a magic) (draw_outline line b magic)"
proof -
  have "agree S (fold (\<lambda>e. paint (line e)) es a) (fold (\<lambda>e. paint (line e)) es b)" for es
    using assms by (induction es arbitrary: a b) (simp_all add: paint_agree2)
  then show ?thesis
    by (simp add: draw_outline_def)
qed

lemma draw_outline_agree_snap:
  assumes "agree W a snap"
  shows "agree (W \<union> outline_points line magic) (draw_outline line a magic) snap"
proof -
  have "agree (W \<union> set (concat (map line es))) (fold (\<lambda>e. paint (line e)) es a) snap" for es
    using assms
  proof (induction es arbitrary: W a)
    case Nil
    then show ?case by simp
  next
    case (Cons e es)
    from Cons.IH [OF paint_agree_snap [OF Cons.prems, of "line e"]] show ?case
      by (simp add: Un_assoc)
  qed
  then show ?thesis
    by (simp add: draw_outline_def outline_points_def)
qed

lemma process_region_same_outside:
  assumes "agree S a b" and "agree W a snap"
  shows "(\<exists>e. process_region line tbl k a = Inl e \<and>
              snapshot_process_region line snap tbl k b = Inl e) \<or>
         (\<exists>a' b'. process_region line tbl k a = Inr a' \<and>
              snapshot_process_region line snap tbl k b = Inr b' \<and>
              agree (S \<union> stale_in_region tbl k W (box_points (tbl k))) a' b' \<and>
              agree (W \<union> written_by tbl k \<union> outline_points line (tbl k)) a' snap)"
proof -
  have w: "written_by tbl k = {p \<in> set (box_points (tbl k)). contains (tbl k) p}"
    by (auto simp: written_by_def)
  from region_same_outside [OF assms, of tbl k "box_points (tbl k)"]
  consider (err) e where "for_each (remap_pixel tbl k) (box_points (tbl k)) a = Inl e"
      "for_each (snapshot_pixel snap tbl k) (box_points (tbl k)) b = Inl e"
    | (ok) a' b' where "for_each (remap_pixel tbl k) (box_points (tbl k)) a = Inr a'"
      "for_each (snapshot_pixel snap tbl k) (box_points (tbl k)) b = Inr b'"
      "agree (S \<union> stale_in_region tbl k W (box_points (tbl k))) a' b'"
      "agree (W \<union> written_by tbl k) a' snap"
    unfolding w by blast
  then show ?thesis
  proof cases
    case err
    then show ?thesis
      by (simp add: process_region_def snapshot_process_region_def remap_region_def
          snapshot_region_def)
  next
    case ok
    from ok(3) have "agree (S \<union> stale_in_region tbl k W (box_points (tbl k)))
        (draw_outline line a' (tbl k)) (draw_outline line b' (tbl k))"
      by (rule draw_outline_agree2)
    moreover from ok(4) have "agree (W \<union> written_by tbl k \<union> outline_points line (tbl k))
        (draw_outline line a' (tbl k)) snap"
      by (rule draw_outline_agree_snap)
    ultimately show ?thesis
      using ok(1,2)
      by (simp add: process_region_def snapshot_process_region_def remap_region_def
          snapshot_region_def)
  qed
qed

lemma run_same_outside:
  assumes "agree S a b" and "agree W a snap"
  shows "same_outside (S \<union> stale_pixels line tbl W ks)
           (for_each (process_region line tbl) ks a)
           (for_each (snapshot_process_region line snap tbl) ks b)"
  using assms
proof (induction ks arbitrary: S W a b)
  case Nil
  then show ?case by (simp add: same_outside_def)
next
  case (Cons k ks)
  from process_region_same_outside [OF Cons.prems, of line tbl k]
  consider (err) e where "process_region line tbl k a = Inl e"
      "snapshot_process_region line snap tbl k b = Inl e"
    | (ok) a' b' where "process_region line tbl k a = Inr a'"
      "snapshot_process_region line snap tbl k b = Inr b'"
      "agree (S \<union> stale_in_region tbl k W (box_points (tbl k))) a' b'"
      "agree (W \<union> written_by tbl k \<union> outline_points line (tbl k)) a' snap"
    by blast
  then show ?case
  proof cases
    case err
    then show ?thesis by (simp add: same_outside_def)
  next
    case ok
    from Cons.IH [OF ok(3,4)] show ?thesis
      by (simp add: ok(1,2) Un_assoc)
  qed
qed

text \<open>
  C1, amended: for every table of polygons, image and line rasteriser, remapping from an
  immutable snapshot of the original grid and the in-place procedure end alike outside
  the stale pixels: both raise the same exception, or both return images of the same
  size that agree on every pixel that was not written from a stale read. In particular
  they return the same image when no read is stale.
\<close>

theorem snapshot_agrees_outside_stale:
  "same_outside (stale_pixels line tbl {} orientations)
     (remap_all line tbl im) (snapshot_all line tbl im)"
proof -
  have "agree {} im im"
    by (simp add: agree_def)
  from run_same_outside [OF this this, of line tbl orientations] show ?thesis
    by (simp add: remap_all_def snapshot_all_def)
qed

lemma stale_in_region_D:
  assumes "p \<in> stale_in_region tbl k W ps"
  shows "p \<in> set ps \<and> contains (tbl k) p \<and>
         (\<exists>t. translation tbl k = Inr t \<and>
              (fst p + fst t, snd p + snd t) \<in> W \<union> {q \<in> set ps. contains (tbl k) q})"
  using assms
proof (induction ps arbitrary: W)
  case Nil
  then show ?case by simp
next
  case (Cons a ps)
  show ?case
  proof (cases "contains (tbl k) a")
    case False
    with Cons.prems have "p \<in> stale_in_region tbl k W ps" by simp
    from Cons.IH [OF this] show ?thesis by auto
  next
    case True
    with Cons.prems obtain t where t: "translation tbl k = Inr t"
      by (auto split: sum.splits)
    from Cons.prems True t
    consider "p = a" "(fst a + fst t, snd a + snd t) \<in> W"
      | "p \<in> stale_in_region tbl k (insert a W) ps"
      by (auto split: if_splits)
    then show ?thesis
    proof cases
      case 1
      with True t show ?thesis by auto
    next
      case 2
      from Cons.IH [OF 2] True show ?thesis by auto
    qed
  qed
qed

lemma stale_in_region_I:
  assumes "p \<in> set ps" and "contains (tbl k) p" and "translation tbl k = Inr t"
    and "(fst p + fst t, snd p + snd t) \<in> W"
  shows "p \<in> stale_in_region tbl k W ps"
  using assms(1,4)
proof (induction ps arbitrary: W)
  case Nil
  then show ?case by simp
next
  case (Cons a ps)
  show ?case
  proof (cases "a = p")
    case True
    with assms(2,3) Cons.prems(2) show ?thesis by simp
  next
    case False
    with Cons.prems(1) have "p \<in> set ps" by simp
    from Cons.IH [OF this] Cons.prems(2)
    have "p \<in> stale_in_region tbl k W ps" and "p \<in> stale_in_region tbl k (insert a W) ps"
      by simp_all
    then show ?thesis
      using assms(3) by simp
  qed
qed

lemma not_stale_958_235:
  "(958, 235) \<notin> stale_pixels line (templates_at 1 1920 1266) {} orientations"
proof
  let ?T = "templates_at 1 1920 1266"
  let ?q = "(958, 235) :: point"
  assume "?q \<in> stale_pixels line ?T {} orientations"
  then obtain k W where st: "?q \<in> stale_in_region ?T k W (box_points (?T k))"
    and W: "k = TopLeft \<longrightarrow> W = {}"
    by (auto simp: orientations_def)
  from stale_in_region_D [OF st] obtain t where w: "?q \<in> written_by ?T k"
    and t: "translation ?T k = Inr t"
    and s: "(fst ?q + fst t, snd ?q + snd t) \<in> W \<union> written_by ?T k"
    by (auto simp: written_by_def)
  from w have k: "k = TopLeft"
    using pixel_958_235(2,3,4) by (cases k) auto
  with t have "t = (201, 365)"
    by (simp add: translation_1920)
  with s k W show False
    using pixel_1159_600(1) by simp
qed

lemma stale_1159_600:
  "(1159, 600) \<in> stale_pixels line (templates_at 1 1920 1266) {} orientations"
proof -
  let ?T = "templates_at 1 1920 1266"
  let ?p = "(1159, 600) :: point"
  let ?W = "{} \<union> written_by ?T TopLeft \<union> outline_points line (?T TopLeft)
    \<union> written_by ?T TopRight \<union> outline_points line (?T TopRight)
    \<union> written_by ?T BottomLeft \<union> outline_points line (?T BottomLeft)"
  have "?p \<in> stale_in_region ?T BottomRight ?W (box_points (?T BottomRight))"
  proof (rule stale_in_region_I)
    show "?p \<in> set (box_points (?T BottomRight))" and "contains (?T BottomRight) ?p"
      using pixel_1159_600(2) by (simp_all add: written_by_iff)
    show "translation ?T BottomRight = Inr (- 201, - 365)"
      by (rule translation_1920)
    show "(fst ?p + fst ((- 201, - 365) :: point), snd ?p + snd ((- 201, - 365) :: point)) \<in> ?W"
      using pixel_958_235(1) by simp
  qed
  then show ?thesis
    by (simp add: orientations_def)
qed

lemma snapshot_pixel_Inr:
  assumes "snapshot_pixel snap tbl k p b = Inr b'" and "contains (tbl k) p"
    and "translation tbl k = Inr t"
  shows "data b' = (data b)(p := filter_px (data snap (fst p + fst t, snd p + snd t)))"
  using assms
  by (auto simp: snapshot_pixel_def getpixel_def putpixel_def split: if_splits)

lemma snapshot_region_frame:
  assumes "for_each (snapshot_pixel snap tbl k) ps b = Inr b'"
    and "q \<notin> set ps \<or> \<not> contains (tbl k) q"
  shows "data b' q = data b q"
  using assms
proof (induction ps arbitrary: b)
  case Nil
  then show ?case by simp
next
  case (Cons p ps)
  then obtain b1 where 1: "snapshot_pixel snap tbl k p b = Inr b1"
    and 2: "for_each (snapshot_pixel snap tbl k) ps b1 = Inr b'"
    by (auto split: sum.splits)
  from Cons.prems(2) have q: "q \<notin> set ps \<or> \<not> contains (tbl k) q" by auto
  have "data b1 q = data b q"
  proof (cases "contains (tbl k) p")
    case True
    with 1 obtain t where t: "translation tbl k = Inr t"
      by (auto simp: snapshot_pixel_def split: sum.splits)
    from True Cons.prems(2) have "q \<noteq> p" by auto
    with snapshot_pixel_Inr [OF 1 True t] show ?thesis by simp
  next
    case False
    with 1 show ?thesis by (simp add: snapshot_pixel_def)
  qed
  with Cons.IH [OF 2 q] show ?case by simp
qed

lemma snapshot_region_value:
  assumes "for_each (snapshot_pixel snap tbl k) ps b = Inr b'"
    and "distinct ps" and "p \<in> set ps" and "contains (tbl k) p"
    and "translation tbl k = Inr t"
  shows "data b' p = filter_px (data snap (fst p + fst t, snd p + snd t))"
  using assms(1,2,3)
proof (induction ps arbitrary: b)
  case Nil
  then show ?case by simp
next
  case (Cons a ps)
  from Cons.prems(1) obtain b1 where 1: "snapshot_pixel snap tbl k a b = Inr b1"
    and 2: "for_each (snapshot_pixel snap tbl k) ps b1 = Inr b'"
    by (auto split: sum.splits)
  show ?case
  proof (cases "a = p")
    case True
    with Cons.prems(2) have "p \<notin> set ps" by simp
    then have "data b' p = data b1 p"
      using snapshot_region_frame [OF 2] by blast
    also have "\<dots> = filter_px (data snap (fst p + fst t, snd p + snd t))"
      using snapshot_pixel_Inr [OF 1 [unfolded True] assms(4,5)] by simp
    finally show ?thesis .
  next
    case False
    with Cons.prems have "p \<in> set ps" and "distinct ps"
      by auto
    with Cons.IH [OF 2] show ?thesis by simp
  qed
qed

lemma snapshot_process_region_value:
  assumes "snapshot_process_region line snap tbl k b = Inr b'"
    and "p \<in> written_by tbl k" and "translation tbl k = Inr t"
    and "p \<notin> outline_points line (tbl k)"
  shows "data b' p = filter_px (data snap (fst p + fst t, snd p + snd t))"
proof -
  from assms(1) obtain b1 where 1: "for_each (snapshot_pixel snap tbl k) (box_points (tbl k)) b = Inr b1"
    and 2: "b' = draw_outline line b1 (tbl k)"
    by (auto simp: snapshot_process_region_def snapshot_region_def split: sum.splits)
  from assms(2) have p: "p \<in> set (box_points (tbl k))" "contains (tbl k) p"
    by (simp_all add: written_by_iff)
  have "data b1 p = filter_px (data snap (fst p + fst t, snd p + snd t))"
    using 1 distinct_box_points p assms(3) by (rule snapshot_region_value)
  with draw_outline_frame [OF assms(4), of b1] show ?thesis
    unfolding 2 by simp
qed

text \<open>
  The agreement does not extend to the stale pixels. On the solid gray image of 1920 by
  1266 pixels, unless the outline of the region bottom-right covers the pixel (1159, 600),
  that pixel is (215, 215, 215) or (234, 234, 234) after the in-place run and
  (166, 166, 166) after the run on the snapshot.
\<close>

lemma outputs_differ_at_1159_600:
  assumes a: "remap_all line (templates_at 1 1920 1266) (solid 1920 1266 (128, 128, 128)) = Inr a"
    and b: "snapshot_all line (templates_at 1 1920 1266) (solid 1920 1266 (128, 128, 128)) = Inr b"
    and free: "(1159, 600) \<notin> outline_points line (templates_at 1 1920 1266 BottomRight)"
  shows "data a (1159, 600) \<in> {(215, 215, 215), (234, 234, 234)}"
    and "data b (1159, 600) = (166, 166, 166)"
proof -
  let ?T = "templates_at 1 1920 1266"
  let ?G = "solid 1920 1266 (128, 128, 128)"
  let ?p = "(1159, 600) :: point" and ?q = "(958, 235) :: point"
  let ?t = "(- 201, - 365) :: point"
  have src: "(fst ?p + fst ?t, snd ?p + snd ?t) = ?q"
    by simp
  from a obtain im1 im2 im3
    where 1: "process_region line ?T TopLeft ?G = Inr im1"
      and 2: "process_region line ?T TopRight im1 = Inr im2"
      and 3: "process_region line ?T BottomLeft im2 = Inr im3"
      and 4: "process_region line ?T BottomRight im3 = Inr a"
    by (auto simp: remap_all_def orientations_def split: sum.splits)
  have "data im1 ?q = filter_px (data ?G (fst ?q + fst ((201, 365) :: point),
      snd ?q + snd ((201, 365) :: point))) \<or> data im1 ?q = (180, 180, 180)"
    using 1 pixel_958_235(1) translation_1920(1)
  proof (rule process_region_written_or_painted)
    show "(fst ?q + fst ((201, 365) :: point), snd ?q + snd ((201, 365) :: point))
        \<notin> written_by ?T TopLeft"
      using pixel_1159_600(1) by simp
  qed
  then have c1: "data im1 ?q = (166, 166, 166) \<or> data im1 ?q = (180, 180, 180)"
    by (simp add: solid_def limit_floor)
  have c2: "data im2 ?q = (166, 166, 166) \<or> data im2 ?q = (180, 180, 180)"
    using process_region_kept_or_painted [OF 2 pixel_958_235(2)] c1 by auto
  have c3: "data im3 ?q = (166, 166, 166) \<or> data im3 ?q = (180, 180, 180)"
    using process_region_kept_or_painted [OF 3 pixel_958_235(3)] c2 by auto
  have "data a ?p = filter_px (data im3 (fst ?p + fst ?t, snd ?p + snd ?t))"
    using 4 pixel_1159_600(2) translation_1920(4)
  proof (rule process_region_value)
    show "(fst ?p + fst ?t, snd ?p + snd ?t) \<notin> written_by ?T BottomRight"
      using pixel_958_235(4) by simp
    show "?p \<notin> outline_points line (?T BottomRight)"
      by (rule free)
  qed
  with c3 show "data a (1159, 600) \<in> {(215, 215, 215), (234, 234, 234)}"
    unfolding src by (auto simp: limit_floor)
  from b obtain b3 where 5: "snapshot_process_region line ?G ?T BottomRight b3 = Inr b"
    by (auto simp: snapshot_all_def orientations_def split: sum.splits)
  have "data b ?p = filter_px (data ?G (fst ?p + fst ?t, snd ?p + snd ?t))"
    using 5 pixel_1159_600(2) translation_1920(4) free by (rule snapshot_process_region_value)
  then show "data b (1159, 600) = (166, 166, 166)"
    by (simp add: solid_def limit_floor)
qed

text \<open>
  C1, as stated, fails: on a 1920 by 1266 image at scale 1 the pixel (1159, 600) is
  classified inside the region bottom-right, its translation is (-201, -365), and the
  mirrored source (958, 235) is a pixel that the region top-left, processed before, has
  written. This read lands on an overwritten pixel whatever the outlines cover.
\<close>

theorem stale_read_counterexample:
  "scale_magics magics 1 1920 1266 = Inr (templates_at 1 1920 1266) \<and>
   (1159, 600) \<in> written_by (templates_at 1 1920 1266) BottomRight \<and>
   translation (templates_at 1 1920 1266) BottomRight = Inr (- 201, - 365) \<and>
   (1159 - 201, 600 - 365) \<in> written_by (templates_at 1 1920 1266) TopLeft \<and>
   earlier BottomRight = [TopLeft, TopRight, BottomLeft]"
proof -
  have "(\<lambda>k. scaled 1 1920 1266 (magics k)) = templates_at 1 1920 1266"
    by (rule ext) (simp add: templates_at_def)
  then have "scale_magics magics 1 1920 1266 = Inr (templates_at 1 1920 1266)"
    by (simp add: scale_magics_templates)
  moreover have "earlier BottomRight = [TopLeft, TopRight, BottomLeft]"
    by (simp add: earlier_def orientations_def)
  ultimately show ?thesis
    using pixel_1159_600(2) pixel_958_235(1) translation_1920(4) by simp
qed

theorem snapshot_agrees_outside_stale_witness:
  "\<forall>line. (958, 235) \<notin> stale_pixels line (templates_at 1 1920 1266) {} orientations \<and>
     (1159, 600) \<in> stale_pixels line (templates_at 1 1920 1266) {} orientations \<and>
     (case remap_all line (templates_at 1 1920 1266) (solid 1920 1266 (128, 128, 128)) of
        Inl e \<Rightarrow> False
      | Inr a \<Rightarrow>
          (case snapshot_all line (templates_at 1 1920 1266) (solid 1920 1266 (128, 128, 128)) of
             Inl e \<Rightarrow> False
           | Inr b \<Rightarrow> data a (958, 235) = data b (958, 235)))"
proof (intro allI conjI)
  fix line
  let ?T = "templates_at 1 1920 1266"
  let ?G = "solid 1920 1266 (128, 128, 128)"
  show "(958, 235) \<notin> stale_pixels line ?T {} orientations"
    by (rule not_stale_958_235)
  show "(1159, 600) \<in> stale_pixels line ?T {} orientations"
    by (rule stale_1159_600)
  obtain a where a: "remap_all line ?T ?G = Inr a"
    unfolding remap_all_def using run_1920_succeeds [of line "(128, 128, 128)"] by blast
  with snapshot_agrees_outside_stale [of line ?T ?G]
  obtain b where b: "snapshot_all line ?T ?G = Inr b"
    and ab: "agree (stale_pixels line ?T {} orientations) a b"
    by (auto simp: same_outside_def split: sum.splits)
  from ab not_stale_958_235 [of line] have "data a (958, 235) = data b (958, 235)"
    by (simp add: agree_def)
  with a b show "case remap_all line ?T ?G of
      Inl e \<Rightarrow> False
    | Inr a \<Rightarrow>
        (case snapshot_all line ?T ?G of
           Inl e \<Rightarrow> False
         | Inr b \<Rightarrow> data a (958, 235) = data b (958, 235))"
    by simp
qed

end
